theory Spec2Isabelle
  imports Complex_Main "HOL-Library.Signed_Division"
begin

section \<open>Common JavaScript notions\<close>

text \<open>
  A JavaScript string is modelled as a \<open>string\<close>; a thrown \<open>Error\<close> object by its
  optional \<open>code\<close> and its \<open>message\<close>. A call that may throw returns a \<open>call_result\<close>.
\<close>

datatype js_error = JsError (err_code: "string option") (err_message: string)

datatype 'a call_result = Returned 'a | Threw js_error

text \<open>\<open>String.prototype.includes\<close>: the argument occurs as a contiguous substring.\<close>

fun str_includes :: "string \<Rightarrow> string \<Rightarrow> bool" where
  "str_includes [] sub = (sub = [])"
| "str_includes (c # cs) sub = (take (length sub) (c # cs) = sub \<or> str_includes cs sub)"

text \<open>\<open>toString()\<close> of a non-negative integer: its decimal digits.\<close>

definition digit_char :: "nat \<Rightarrow> char" where
  "digit_char d = char_of (48 + d)"

fun toString :: "nat \<Rightarrow> string" where
  "toString n = (if n < 10 then [digit_char n] else toString (n div 10) @ [digit_char (n mod 10)])"

declare toString.simps [simp del]

section \<open>The contract \<open>SecureLog\<close>\<close>

record LogEntry =
  message :: string
  sender :: string
  timestamp :: nat

text \<open>
  \<open>addLog\<close> pushes one entry; the public getter \<open>logs(i)\<close> reverts outside the array;
  \<open>getLogs()\<close> returns the whole array.
\<close>

definition addLog :: "string \<Rightarrow> string \<Rightarrow> nat \<Rightarrow> LogEntry list \<Rightarrow> LogEntry list" where
  "addLog msg from block_time logs = logs @ [\<lparr>message = msg, sender = from, timestamp = block_time\<rparr>]"

definition revert_error :: js_error where
  "revert_error = JsError None ''Returned error: VM Exception while processing transaction: revert''"

definition contract_logs :: "LogEntry list \<Rightarrow> int \<Rightarrow> LogEntry call_result" where
  "contract_logs logs i =
     (if 0 \<le> i \<and> i < int (length logs) then Returned (logs ! nat i) else Threw revert_error)"

definition contract_getLogs :: "LogEntry list \<Rightarrow> LogEntry list call_result" where
  "contract_getLogs logs = Returned logs"

section \<open>Retrieval: \<open>getLogsHandler\<close>\<close>

text \<open>
  The handler reads the ledger only through \<open>contract.methods.logs(i).call()\<close>, here the
  parameter \<open>logs\<close>, and \<open>contract.methods.getLogs().call()\<close>, here \<open>getLogs\<close>. Every
  search function returns its result together with the indices it read, in order.
\<close>

type_synonym logs_call = "int \<Rightarrow> LogEntry call_result"

definition probed :: "int \<Rightarrow> 'a \<times> int list \<Rightarrow> 'a \<times> int list" where
  "probed i r = (fst r, i # snd r)"

text \<open>
  \<open>for (let testIndex = 10000; testIndex >= 0; testIndex -= 500)\<close>: the first index read
  whose entry has a non-empty message is the upper bound; \<open>-1\<close> when there is none.
\<close>

function find_upper_bound :: "logs_call \<Rightarrow> int \<Rightarrow> int \<times> int list" where
  "find_upper_bound logs testIndex =
     (if testIndex \<ge> 0 then
        (case logs testIndex of
           Returned testLog \<Rightarrow>
             if message testLog \<noteq> [] then (testIndex, [testIndex])
             else probed testIndex (find_upper_bound logs (testIndex - 500))
         | Threw e \<Rightarrow> probed testIndex (find_upper_bound logs (testIndex - 500)))
      else (-1, []))"
  by pat_completeness auto
termination
  by (relation "measure (\<lambda>(logs, testIndex). nat (testIndex + 1))") auto

declare find_upper_bound.simps [simp del]

text \<open>\<open>while (low <= high)\<close> with \<open>mid = Math.floor((low + high) / 2)\<close>.\<close>

function binary_search :: "logs_call \<Rightarrow> int \<Rightarrow> int \<Rightarrow> int \<Rightarrow> int \<times> int list" where
  "binary_search logs low high highestIndex =
     (if low \<le> high then
        (let mid = (low + high) div 2 in
         case logs mid of
           Returned testLog \<Rightarrow>
             if message testLog \<noteq> [] then probed mid (binary_search logs (mid + 1) high mid)
             else probed mid (binary_search logs low (mid - 1) highestIndex)
         | Threw e \<Rightarrow> probed mid (binary_search logs low (mid - 1) highestIndex))
      else (highestIndex, []))"
  by pat_completeness auto
termination
  by (relation "measure (\<lambda>(logs, low, high, highestIndex). nat (high - low + 1))") auto

declare binary_search.simps [simp del]

text \<open>\<open>for (let i = 0; i < 5000; i++)\<close>, left at the first index that is not populated.\<close>

function search_from_beginning :: "logs_call \<Rightarrow> int \<Rightarrow> int \<Rightarrow> int \<times> int list" where
  "search_from_beginning logs i highestIndex =
     (if i < 5000 then
        (case logs i of
           Returned entry \<Rightarrow>
             if message entry \<noteq> [] then probed i (search_from_beginning logs (i + 1) i)
             else (highestIndex, [i])
         | Threw e \<Rightarrow> (highestIndex, [i]))
      else (highestIndex, []))"
  by pat_completeness auto
termination
  by (relation "measure (\<lambda>(logs, i, highestIndex). nat (5000 - i))") auto

declare search_from_beginning.simps [simp del]

text \<open>The index-discovery phase: \<open>highestIndex\<close> after lines 443 to 499, and the reads made.\<close>

definition find_highest_index :: "logs_call \<Rightarrow> int \<times> int list" where
  "find_highest_index logs =
     (let (upperBound, reads1) = find_upper_bound logs 10000 in
      if upperBound \<ge> 0 then
        (let (highestIndex, reads2) = binary_search logs upperBound (upperBound + 1000) (-1)
         in (highestIndex, reads1 @ reads2))
      else
        (let (highestIndex, reads2) = search_from_beginning logs 0 (-1)
         in (highestIndex, reads1 @ reads2)))"

record FormattedLog =
  log_index :: int
  log_message :: string
  log_sender :: string
  log_timestamp :: string

definition format_log :: "int \<Rightarrow> LogEntry \<Rightarrow> FormattedLog" where
  "format_log i entry = \<lparr>log_index = i, log_message = message entry, log_sender = sender entry,
     log_timestamp = toString (timestamp entry)\<rparr>"

text \<open>\<open>for (let i = endIndex; i >= startIndex && i >= 0; i--)\<close>: the entries pushed.\<close>

function fetch_backwards :: "logs_call \<Rightarrow> int \<Rightarrow> int \<Rightarrow> FormattedLog list" where
  "fetch_backwards logs i startIndex =
     (if i \<ge> startIndex \<and> i \<ge> 0 then
        (case logs i of
           Returned entry \<Rightarrow>
             if message entry \<noteq> [] then format_log i entry # fetch_backwards logs (i - 1) startIndex
             else fetch_backwards logs (i - 1) startIndex
         | Threw e \<Rightarrow> fetch_backwards logs (i - 1) startIndex)
      else [])"
  by pat_completeness auto
termination
  by (relation "measure (\<lambda>(logs, i, startIndex). nat (i + 1))") auto

declare fetch_backwards.simps [simp del]

text \<open>
  The body of the inner \<open>try\<close> (lines 443 to 522). Each contract call in it sits in a
  \<open>try\<close> of its own whose \<open>catch\<close> goes on, so the body always reaches its end: it
  yields \<open>Inr (totalCount, formattedLogs)\<close>.
\<close>

definition fetch_individually :: "logs_call \<Rightarrow> js_error + int \<times> FormattedLog list" where
  "fetch_individually logs =
     (let highestIndex = fst (find_highest_index logs);
          startIndex = max 0 (highestIndex - 99);
          endIndex = highestIndex;
          formattedLogs = fetch_backwards logs endIndex startIndex
      in Inr (highestIndex + 1, formattedLogs))"

text \<open>The fallback of the inner \<open>catch\<close>: one \<open>getLogs()\<close> call, newest first.\<close>

definition fetch_bulk :: "LogEntry list call_result \<Rightarrow> js_error + int \<times> FormattedLog list" where
  "fetch_bulk getLogs =
     (case getLogs of
        Returned ls \<Rightarrow>
          (let formattedLogs = map (\<lambda>(entry, i). format_log (int i) entry) (zip ls [0 ..< length ls])
           in Inr (int (length formattedLogs), rev formattedLogs))
      | Threw gasError \<Rightarrow>
          Inl (JsError None (''Failed to retrieve logs: '' @ err_message gasError)))"

datatype logs_response =
  Logs_ok (resp_count: int) (resp_displayed: nat) (resp_logs: "FormattedLog list")
| Logs_failed (resp_status: nat) (resp_error: string) (resp_message: string)

definition connection_error :: "string \<Rightarrow> bool" where
  "connection_error m =
     (str_includes m ''ETIMEDOUT'' \<or> str_includes m ''ECONNREFUSED'' \<or> str_includes m ''connect''
      \<or> str_includes m ''fetch failed'')"

definition getLogsHandler :: "logs_call \<Rightarrow> LogEntry list call_result \<Rightarrow> logs_response" where
  "getLogsHandler logs getLogs =
     (case (case fetch_individually logs of
              Inr r \<Rightarrow> Inr r
            | Inl error \<Rightarrow> fetch_bulk getLogs) of
        Inr (totalCount, formattedLogs) \<Rightarrow>
          (let limitedLogs = take 100 formattedLogs
           in Logs_ok totalCount (length limitedLogs) limitedLogs)
      | Inl error \<Rightarrow>
          if connection_error (err_message error)
          then Logs_failed 503 ''Failed to retrieve logs''
                 ''Cannot connect to Ganache. Please make sure Ganache is running on port 7545.''
          else Logs_failed 500 ''Failed to retrieve logs'' (err_message error))"

subsection \<open>Notions used to state the retrieval properties\<close>

text \<open>
  An index is populated when its read returns an entry whose message is non-empty: the
  test \<open>testLog && testLog.message\<close> inside a \<open>try\<close>.
\<close>

definition populated :: "logs_call \<Rightarrow> int \<Rightarrow> bool" where
  "populated logs i = (case logs i of Returned entry \<Rightarrow> message entry \<noteq> [] | Threw e \<Rightarrow> False)"

text \<open>A dense ledger: every stored entry has a non-empty message.\<close>

definition dense :: "LogEntry list \<Rightarrow> bool" where
  "dense entries = (\<forall>e \<in> set entries. message e \<noteq> [])"

text \<open>What one iteration of the tail loop pushes for index \<open>i\<close>: one entry or nothing.\<close>

definition read_entry :: "logs_call \<Rightarrow> int \<Rightarrow> FormattedLog list" where
  "read_entry logs i =
     (case logs i of
        Returned entry \<Rightarrow> if message entry \<noteq> [] then [format_log i entry] else []
      | Threw e \<Rightarrow> [])"

definition sample_entry :: LogEntry where
  "sample_entry = \<lparr>message = ''boot'', sender = ''0x01'', timestamp = 1700000000\<rparr>"

text \<open>A ledger that cannot be reached: every read is refused by the network.\<close>

definition unreachable_error :: js_error where
  "unreachable_error = JsError (Some ''ECONNREFUSED'') ''connect ECONNREFUSED 127.0.0.1:7545''"

definition unreachable_logs :: logs_call where
  "unreachable_logs i = Threw unreachable_error"

section \<open>Ingestion: \<open>services/stream-logs.js\<close>\<close>

subsection \<open>Strings\<close>

text \<open>
  \<open>String.prototype.trim\<close> removes white space and line terminators at both ends. Among
  the characters below 256 these are tab, line feed, vertical tab, form feed, carriage
  return, space and the no-break space.
\<close>

definition js_whitespace :: "char \<Rightarrow> bool" where
  "js_whitespace c = (of_char c \<in> {9, 10, 11, 12, 13, 32, 160 :: nat})"

definition trim :: "string \<Rightarrow> string" where
  "trim s = rev (dropWhile js_whitespace (rev (dropWhile js_whitespace s)))"

text \<open>\<open>split('\n')\<close>: the pieces between line feeds; never the empty array.\<close>

fun split_newline :: "string \<Rightarrow> string list" where
  "split_newline [] = [[]]"
| "split_newline (c # cs) =
     (if c = CHR 0x0A then [] # split_newline cs
      else (c # hd (split_newline cs)) # tl (split_newline cs))"

subsection \<open>The module's variables and the clock\<close>

definition ERROR_THROTTLE_MS :: int where "ERROR_THROTTLE_MS = 5000"
definition SEND_INTERVAL_MS :: int where "SEND_INTERVAL_MS = 1000"
definition MAX_QUEUE_SIZE :: nat where "MAX_QUEUE_SIZE = 50"
definition MAX_LOGS_PER_DAY :: int where "MAX_LOGS_PER_DAY = 1000"

definition day_ms :: int where "day_ms = 24 * 60 * 60 * 1000"
definition hour_ms :: int where "hour_ms = 60 * 60 * 1000"

text \<open>
  The \<open>let\<close> variables of the module. \<open>clock_reads\<close> counts the calls of \<open>Date.now()\<close>
  made so far: the call number \<open>k\<close> returns \<open>clock k\<close>, for a \<open>clock\<close> given from outside.
\<close>

record pipeline =
  logBuffer :: string
  serverAvailable :: bool
  lastErrorTime :: int
  lastSentTime :: int
  logQueue :: "string list"
  isStopped :: bool
  dailyLogCount :: int
  dailyResetTime :: int
  clock_reads :: nat

type_synonym clock = "nat \<Rightarrow> int"

definition Date_now :: "clock \<Rightarrow> pipeline \<Rightarrow> int \<times> pipeline" where
  "Date_now clock s = (clock (clock_reads s), s\<lparr>clock_reads := Suc (clock_reads s)\<rparr>)"

text \<open>The variables after the module is loaded; \<open>dailyResetTime\<close> reads the clock once.\<close>

definition initial :: "clock \<Rightarrow> pipeline" where
  "initial clock =
     \<lparr>logBuffer = [], serverAvailable = True, lastErrorTime = 0, lastSentTime = 0,
      logQueue = [], isStopped = False, dailyLogCount = 0,
      dailyResetTime = clock 0 + day_ms, clock_reads = 1\<rparr>"

text \<open>
  What a function does besides changing the variables: console output, the HTTP request
  \<open>fetch(API_URL, {method: 'POST', body: {message}})\<close>, and \<open>setTimeout(processLogQueue, d)\<close>.
  \<open>Dispatched t m\<close> marks the call \<open>sendLogToBlockchain(m)\<close> that \<open>processLogQueue\<close> makes
  right after it has stored \<open>t\<close> in \<open>lastSentTime\<close>.
\<close>

datatype effect =
  Console_log string
| Console_error string
| Fetch_post string
| Set_timeout int
| Dispatched int string

definition limit_reached_text :: string where
  "limit_reached_text = ''[ERROR] Daily log limit reached (1000 logs/day). Logs will resume tomorrow.''"

definition reconnected_text :: string where
  "reconnected_text = ''[OK] Server reconnected - logs are being sent to blockchain''"

definition not_available_text :: string where
  "not_available_text = ''[ERROR] Server not available - logs will be skipped until server is back online''"

subsection \<open>\<open>sendLogToBlockchain\<close>\<close>

text \<open>
  The function runs up to its first \<open>await\<close> when it is called: it returns at once
  (\<open>Resolved\<close>, with \<open>false\<close> or \<open>undefined\<close>) or issues the request and waits
  (\<open>Awaiting_fetch\<close>). \<open>Math.floor\<close> of a quotient of integers is \<open>div\<close>; \<open>%\<close> is the
  remainder of the truncating division, \<open>smod\<close>.
\<close>

datatype send_state = Resolved "bool option" | Awaiting_fetch

definition sendLog_begin :: "clock \<Rightarrow> string \<Rightarrow> pipeline \<Rightarrow> send_state \<times> effect list \<times> pipeline" where
  "sendLog_begin clock msg s =
     (if isStopped s then (Resolved (Some False), [], s)
      else
        let (now, s1) = Date_now clock s;
            s2 = (if now \<ge> dailyResetTime s1
                  then s1\<lparr>dailyLogCount := 0, dailyResetTime := now + day_ms\<rparr>
                  else s1)
        in
          if dailyLogCount s2 \<ge> MAX_LOGS_PER_DAY then
            (let hoursSinceReset = (now - (dailyResetTime s2 - day_ms)) div hour_ms
             in (Resolved (Some False),
                 (if hoursSinceReset smod 1 = 0 then [Console_error limit_reached_text] else []),
                 s2))
          else if msg = [] \<or> trim msg = [] then (Resolved None, [], s2)
          else (Awaiting_fetch, [Fetch_post (trim msg)], s2))"

text \<open>
  The rest of the function runs when the request settles. Either \<open>fetch\<close> rejects, or
  it yields a response with its \<open>ok\<close> flag, whose \<open>json()\<close> rejects or parses to an object
  of which only the field \<open>message\<close> is read. Between the two \<open>await\<close>s no variable is
  read or written, so the continuation is one step.
\<close>

datatype json_outcome = Json_parsed "string option" | Json_threw js_error

datatype fetch_outcome = Response bool json_outcome | Fetch_threw js_error

text \<open>The \<open>catch\<close> block.\<close>

definition send_catch :: "clock \<Rightarrow> js_error \<Rightarrow> pipeline \<Rightarrow> effect list \<times> pipeline" where
  "send_catch clock error s =
     (if err_code error = Some ''ECONNREFUSED'' \<or> str_includes (err_message error) ''fetch failed''
      then
        let (now, s1) = Date_now clock s
        in if serverAvailable s1 \<or> now - lastErrorTime s1 > ERROR_THROTTLE_MS
           then ([Console_error not_available_text],
                 s1\<lparr>serverAvailable := False, lastErrorTime := now\<rparr>)
           else ([], s1)
      else ([Console_error (''[ERROR] Network error: '' @ err_message error)], s))"

definition sendLog_settle :: "clock \<Rightarrow> fetch_outcome \<Rightarrow> pipeline \<Rightarrow> bool \<times> effect list \<times> pipeline" where
  "sendLog_settle clock outcome s =
     (case outcome of
        Fetch_threw error \<Rightarrow> (let (out, s') = send_catch clock error s in (False, out, s'))
      | Response ok (Json_threw error) \<Rightarrow>
          (let (out, s') = send_catch clock error s in (False, out, s'))
      | Response ok (Json_parsed body_message) \<Rightarrow>
          if ok then
            (let s1 = s\<lparr>dailyLogCount := dailyLogCount s + 1\<rparr>
             in if \<not> serverAvailable s1
                then (True, [Console_log reconnected_text], s1\<lparr>serverAvailable := True\<rparr>)
                else (True, [], s1))
          else
            (let (now, s1) = Date_now clock s
             in if now - lastErrorTime s1 > ERROR_THROTTLE_MS
                then (False,
                      [Console_error (''[ERROR] API error: '' @
                         (case body_message of
                            Some m \<Rightarrow> if m \<noteq> [] then m else ''Unknown error''
                          | None \<Rightarrow> ''Unknown error''))],
                      s1\<lparr>lastErrorTime := now\<rparr>)
                else (False, [], s1)))"

subsection \<open>The queue\<close>

definition processLogQueue :: "clock \<Rightarrow> pipeline \<Rightarrow> effect list \<times> pipeline" where
  "processLogQueue clock s =
     (let (now, s1) = Date_now clock s
      in if now - lastSentTime s1 < SEND_INTERVAL_MS
         then ([Set_timeout (SEND_INTERVAL_MS - (now - lastSentTime s1))], s1)
         else
           (case logQueue s1 of
              [] \<Rightarrow> ([], s1)
            | msg # rest \<Rightarrow>
                let s2 = s1\<lparr>logQueue := rest\<rparr>;
                    (sent, s3) = Date_now clock s2;
                    s4 = s3\<lparr>lastSentTime := sent\<rparr>;
                    (st, out, s5) = sendLog_begin clock msg s4
                in (Dispatched sent msg # out @
                      (if logQueue s5 \<noteq> [] then [Set_timeout SEND_INTERVAL_MS] else []),
                    s5)))"

text \<open>The first two statements of \<open>queueLogForSending\<close>: \<open>shift\<close> when full, then \<open>push\<close>.\<close>

definition enqueue :: "string \<Rightarrow> pipeline \<Rightarrow> pipeline" where
  "enqueue msg s =
     (let s1 = (if length (logQueue s) \<ge> MAX_QUEUE_SIZE then s\<lparr>logQueue := tl (logQueue s)\<rparr> else s)
      in s1\<lparr>logQueue := logQueue s1 @ [msg]\<rparr>)"

definition queueLogForSending :: "clock \<Rightarrow> string \<Rightarrow> pipeline \<Rightarrow> effect list \<times> pipeline" where
  "queueLogForSending clock msg s =
     (if isStopped s then ([], s) else processLogQueue clock (enqueue msg s))"

subsection \<open>The event handlers\<close>

text \<open>The loop \<open>for (const line of lines)\<close> of the \<open>'data'\<close> handler.\<close>

fun queue_lines :: "clock \<Rightarrow> string list \<Rightarrow> pipeline \<Rightarrow> effect list \<times> pipeline" where
  "queue_lines clock [] s = ([], s)"
| "queue_lines clock (line # lines) s =
     (if trim line \<noteq> [] then
        (let (out1, s1) = queueLogForSending clock line s;
             (out2, s2) = queue_lines clock lines s1
         in (Console_log line # out1 @ out2, s2))
      else queue_lines clock lines s)"

definition on_data :: "clock \<Rightarrow> string \<Rightarrow> pipeline \<Rightarrow> effect list \<times> pipeline" where
  "on_data clock chunk s =
     (let lines = split_newline (logBuffer s @ chunk);
          s1 = s\<lparr>logBuffer := last lines\<rparr>
      in queue_lines clock (butlast lines) s1)"

text \<open>
  \<open>SIGINT\<close> and \<open>SIGTERM\<close>: stop sending and clear the queue. The handlers also kill
  the child process and let the process exit half a second later.
\<close>

datatype signal = SIGINT | SIGTERM

definition on_signal :: "signal \<Rightarrow> pipeline \<Rightarrow> effect list \<times> pipeline" where
  "on_signal sig s =
     ([Console_log (case sig of
                      SIGINT \<Rightarrow> ''\<newline>\<newline>Stopping log stream...''
                    | SIGTERM \<Rightarrow> ''\<newline>\<newline>Terminating log stream...'')],
      s\<lparr>isStopped := True, logQueue := []\<rparr>)"

text \<open>
  One turn of the event loop: a chunk of the log stream arrives, a timer set by
  \<open>setTimeout(processLogQueue, d)\<close> fires, a request issued earlier settles, or a stop
  signal arrives. A run is any sequence of turns; the handlers of a turn run to their end
  before the next turn starts.
\<close>

datatype event = Data string | Timer | Settled fetch_outcome | Signal signal

definition step :: "clock \<Rightarrow> event \<Rightarrow> pipeline \<Rightarrow> effect list \<times> pipeline" where
  "step clock e s =
     (case e of
        Data chunk \<Rightarrow> on_data clock chunk s
      | Timer \<Rightarrow> processLogQueue clock s
      | Settled outcome \<Rightarrow> (let (r, out, s') = sendLog_settle clock outcome s in (out, s'))
      | Signal sig \<Rightarrow> on_signal sig s)"

fun run :: "clock \<Rightarrow> event list \<Rightarrow> pipeline \<Rightarrow> effect list \<times> pipeline" where
  "run clock [] s = ([], s)"
| "run clock (e # es) s =
     (let (out1, s1) = step clock e s;
          (out2, s2) = run clock es s1
      in (out1 @ out2, s2))"

subsection \<open>Notions used to state the ingestion properties\<close>

definition monotone_clock :: "clock \<Rightarrow> bool" where
  "monotone_clock clock = (\<forall>i j. i \<le> j \<longrightarrow> clock i \<le> clock j)"

fun dispatch_times :: "effect list \<Rightarrow> int list" where
  "dispatch_times [] = []"
| "dispatch_times (Dispatched t m # out) = t # dispatch_times out"
| "dispatch_times (x # out) = dispatch_times out"

fun dispatched :: "effect list \<Rightarrow> string list" where
  "dispatched [] = []"
| "dispatched (Dispatched t m # out) = m # dispatched out"
| "dispatched (x # out) = dispatched out"

fun posts :: "effect list \<Rightarrow> string list" where
  "posts [] = []"
| "posts (Fetch_post body # out) = body # posts out"
| "posts (x # out) = posts out"

fun errors :: "effect list \<Rightarrow> string list" where
  "errors [] = []"
| "errors (Console_error text # out) = text # errors out"
| "errors (x # out) = errors out"

fun infos :: "effect list \<Rightarrow> string list" where
  "infos [] = []"
| "infos (Console_log text # out) = text # infos out"
| "infos (x # out) = infos out"

section \<open>Manual submission: \<open>POST /add-log\<close>\<close>

text \<open>
  The field \<open>message\<close> of the parsed request body: absent, or some JSON value. An array
  or an object is kept without its contents, which the handler never reads.
\<close>

datatype json = JNull | JBool bool | JNumber real | JString string | JArray | JObject

text \<open>The operators \<open>!\<close> (through truthiness) and \<open>typeof\<close>.\<close>

fun truthy :: "json option \<Rightarrow> bool" where
  "truthy None = False"
| "truthy (Some JNull) = False"
| "truthy (Some (JBool b)) = b"
| "truthy (Some (JNumber x)) = (x \<noteq> 0)"
| "truthy (Some (JString s)) = (s \<noteq> [])"
| "truthy (Some JArray) = True"
| "truthy (Some JObject) = True"

fun typeof :: "json option \<Rightarrow> string" where
  "typeof None = ''undefined''"
| "typeof (Some JNull) = ''object''"
| "typeof (Some (JBool b)) = ''boolean''"
| "typeof (Some (JNumber x)) = ''number''"
| "typeof (Some (JString s)) = ''string''"
| "typeof (Some JArray) = ''object''"
| "typeof (Some JObject) = ''object''"

text \<open>The characters of a value whose \<open>typeof\<close> is \<open>'string'\<close>.\<close>

fun string_value :: "json option \<Rightarrow> string" where
  "string_value (Some (JString s)) = s"
| "string_value other = []"

text \<open>
  The ledger client: \<open>contract.methods.addLog(m).estimateGas(...)\<close> and
  \<open>contract.methods.addLog(m).send({gas})\<close>, each of which may throw. The handler returns
  its response and the calls it made on the client, in order.
\<close>

datatype ledger_call = EstimateGas string | SendTransaction string nat

record receipt =
  transactionHash :: string
  blockNumber :: nat

datatype add_log_response =
  Log_added string string
| Add_log_failed nat string string

definition invalid_request :: add_log_response where
  "invalid_request =
     Add_log_failed 400 ''Invalid request'' ''Please provide a \"message\" field as a string''"

definition add_log_failure :: "js_error \<Rightarrow> add_log_response" where
  "add_log_failure error =
     (if connection_error (err_message error)
      then Add_log_failed 503 ''Failed to add log''
             ''Cannot connect to Ganache. Please make sure Ganache is running on port 7545.''
      else Add_log_failed 500 ''Failed to add log'' (err_message error))"

definition add_log ::
  "(string \<Rightarrow> nat call_result) \<Rightarrow> (string \<Rightarrow> nat \<Rightarrow> receipt call_result) \<Rightarrow> json option
     \<Rightarrow> add_log_response \<times> ledger_call list" where
  "add_log estimateGas send body_message =
     (if \<not> truthy body_message \<or> typeof body_message \<noteq> ''string'' then
        (invalid_request, [])
      else
        (let msg = string_value body_message in
         case estimateGas msg of
           Threw error \<Rightarrow> (add_log_failure error, [EstimateGas msg])
         | Returned gasEstimate \<Rightarrow>
             (let gasWithBuffer = gasEstimate + 100000;
                  minGas = 200000;
                  finalGas = (if gasWithBuffer > minGas then gasWithBuffer else minGas)
              in case send msg finalGas of
                   Threw error \<Rightarrow>
                     (add_log_failure error, [EstimateGas msg, SendTransaction msg finalGas])
                 | Returned receipt \<Rightarrow>
                     (Log_added (transactionHash receipt) (toString (blockNumber receipt)),
                      [EstimateGas msg, SendTransaction msg finalGas]))))"

text \<open>
  A request of the ingestion service reaches the ledger only through this handler: the
  ledger calls that follow from the effects of the service.
\<close>

fun ledger_calls_of ::
  "(string \<Rightarrow> nat call_result) \<Rightarrow> (string \<Rightarrow> nat \<Rightarrow> receipt call_result) \<Rightarrow> effect list
     \<Rightarrow> ledger_call list" where
  "ledger_calls_of estimateGas send [] = []"
| "ledger_calls_of estimateGas send (Fetch_post body # out) =
     snd (add_log estimateGas send (Some (JString body))) @ ledger_calls_of estimateGas send out"
| "ledger_calls_of estimateGas send (x # out) = ledger_calls_of estimateGas send out"

text \<open>A string of white space only, and not empty.\<close>

definition whitespace_only :: "string \<Rightarrow> bool" where
  "whitespace_only s = (s \<noteq> [] \<and> list_all js_whitespace s)"

section \<open>Notions used to state the pacing and quota properties\<close>

text \<open>
  The dispatches among \<open>out\<close> are at least \<open>SEND_INTERVAL_MS\<close> apart from each other and
  from \<open>L\<close>, the value of \<open>lastSentTime\<close> before, and none is later than \<open>L'\<close>, its value
  after.
\<close>

definition paced :: "int \<Rightarrow> effect list \<Rightarrow> int \<Rightarrow> bool" where
  "paced L out L' =
     (sorted_wrt (\<lambda>t t'. t + SEND_INTERVAL_MS \<le> t') (dispatch_times out) \<and>
      (\<forall>t \<in> set (dispatch_times out). L + SEND_INTERVAL_MS \<le> t \<and> t \<le> L') \<and> L \<le> L')"

text \<open>The daily limit is reached and the window ends at \<open>R\<close>.\<close>

definition exhausted :: "int \<Rightarrow> pipeline \<Rightarrow> bool" where
  "exhausted R s = (MAX_LOGS_PER_DAY \<le> dailyLogCount s \<and> dailyResetTime s = R)"

text \<open>A clock that advances one second between any two readings.\<close>

definition seconds_clock :: clock where
  "seconds_clock k = 1700000000000 + 1000 * int k"

definition accepted :: fetch_outcome where
  "accepted = Response True (Json_parsed (Some ''Log entry added successfully''))"

definition refused_connection :: fetch_outcome where
  "refused_connection = Fetch_threw (JsError None ''fetch failed'')"

text \<open>
  \<open>n\<close> lines, each arriving alone and each acknowledged by the server before the next
  arrives.
\<close>

definition appends :: "nat \<Rightarrow> event list" where
  "appends n = concat (replicate n [Data ''x\<newline>'', Settled accepted])"

text \<open>The variables after \<open>appends n\<close>, on the clock \<open>seconds_clock\<close>.\<close>

definition after_appends :: "nat \<Rightarrow> pipeline" where
  "after_appends n =
     \<lparr>logBuffer = [], serverAvailable = True, lastErrorTime = 0,
      lastSentTime = (if n = 0 then 0 else seconds_clock (3 * n - 1)),
      logQueue = [], isStopped = False, dailyLogCount = int n,
      dailyResetTime = seconds_clock 0 + day_ms, clock_reads = 1 + 3 * n\<rparr>"

text \<open>A clock that advances one millisecond between any two readings.\<close>

definition millis_clock :: clock where
  "millis_clock k = 1700000000000 + int k"

text \<open>The same, but standing still one second before the daily window of \<open>after_appends\<close> ends.\<close>

definition within_window_clock :: clock where
  "within_window_clock k = min (seconds_clock k) (seconds_clock 0 + day_ms - 1000)"

text \<open>A clock that starts a day and an hour later.\<close>

definition next_day_clock :: clock where
  "next_day_clock k = seconds_clock k + day_ms + hour_ms"

text \<open>A full queue: fifty lines, oldest first.\<close>

definition full_queue :: "string list" where
  "full_queue = map (\<lambda>n. ''line '' @ toString n) [0 ..< 50]"

text \<open>A backlog: the queue is full and a line was sent at the last reading of the clock.\<close>

definition backlog :: pipeline where
  "backlog = (initial millis_clock)\<lparr>logQueue := full_queue, lastSentTime := millis_clock 0\<rparr>"

section \<open>Notions used to state the availability properties\<close>

text \<open>
  The API server itself cannot be reached: \<open>fetch\<close> rejects with the code \<open>ECONNREFUSED\<close>
  or with a message that includes \<open>fetch failed\<close>, the test of the \<open>catch\<close> block. This
  is the only outcome that marks the server as not available. A ledger that cannot be
  reached behind a server that can is not of this kind: the server then answers with
  status 503, see \<open>ledger_unreachable\<close> below.
\<close>

definition server_unreachable :: "fetch_outcome \<Rightarrow> bool" where
  "server_unreachable outcome =
     (case outcome of
        Fetch_threw error \<Rightarrow>
          err_code error = Some ''ECONNREFUSED'' \<or> str_includes (err_message error) ''fetch failed''
      | Response ok r \<Rightarrow> False)"

text \<open>A ledger client whose calls succeed.\<close>

definition sample_estimateGas :: "string \<Rightarrow> nat call_result" where
  "sample_estimateGas m = Returned (21000 + 700 * length m)"

definition sample_send :: "string \<Rightarrow> nat \<Rightarrow> receipt call_result" where
  "sample_send m gas = Returned \<lparr>transactionHash = ''0xabc'', blockNumber = 7\<rparr>"

text \<open>
  What \<open>fetch\<close> yields for an answer of the \<open>POST /add-log\<close> handler: \<open>response.ok\<close> holds
  of the status codes 200 to 299 (\<open>res.json\<close> alone sends 200), and the body parses to an
  object whose field \<open>message\<close> is the text the handler sent.
\<close>

definition response_ok :: "nat \<Rightarrow> bool" where
  "response_ok status = (200 \<le> status \<and> status \<le> 299)"

fun answer :: "add_log_response \<Rightarrow> fetch_outcome" where
  "answer (Log_added tx block) =
     Response (response_ok 200) (Json_parsed (Some ''Log entry added successfully''))"
| "answer (Add_log_failed status err text) =
     Response (response_ok status) (Json_parsed (Some text))"

text \<open>
  The ledger cannot be reached while the server can: \<open>estimateGas\<close> throws the connection
  error, and the service receives the answer of the handler.
\<close>

definition unreachable_estimateGas :: "string \<Rightarrow> nat call_result" where
  "unreachable_estimateGas m = Threw unreachable_error"

definition ledger_unreachable :: fetch_outcome where
  "ledger_unreachable =
     answer (fst (add_log unreachable_estimateGas sample_send (Some (JString ''x''))))"

text \<open>
  The events that can occur while the server stays unreachable: a chunk, a timer, a
  signal, or a request that fails because the server cannot be reached (\<open>refused\<close>); no
  response. An acknowledged request is a response with \<open>ok\<close> set whose body parses.
\<close>

definition refused :: "event \<Rightarrow> bool" where
  "refused e = (case e of Settled outcome \<Rightarrow> server_unreachable outcome | _ \<Rightarrow> False)"

definition outage_event :: "event \<Rightarrow> bool" where
  "outage_event e = (case e of Settled outcome \<Rightarrow> server_unreachable outcome | _ \<Rightarrow> True)"

definition acknowledged :: "event \<Rightarrow> bool" where
  "acknowledged e =
     (case e of
        Settled outcome \<Rightarrow>
          (case outcome of
             Response ok body \<Rightarrow> (case body of Json_parsed r \<Rightarrow> ok | Json_threw error \<Rightarrow> False)
           | Fetch_threw error \<Rightarrow> False)
      | _ \<Rightarrow> False)"

text \<open>The notifications that the server is not available, among the errors logged.\<close>

definition unavailable_notices :: "effect list \<Rightarrow> string list" where
  "unavailable_notices out = filter (\<lambda>text. text = not_available_text) (errors out)"

text \<open>
  The readings of the clock number \<open>r\<close> up to, and without, number \<open>r'\<close> lie between \<open>lo\<close>
  and \<open>hi\<close>.
\<close>

definition readings_between :: "clock \<Rightarrow> nat \<Rightarrow> nat \<Rightarrow> int \<Rightarrow> int \<Rightarrow> bool" where
  "readings_between clock r r' lo hi = (\<forall>k \<in> set [r ..< r']. lo \<le> clock k \<and> clock k \<le> hi)"

text \<open>A clock that advances half a second between readings, for five seconds.\<close>

definition outage_clock :: clock where
  "outage_clock k = 1700000000000 + 500 * int (min k 10)"

text \<open>Three refused requests among the arrival of a line and a timer.\<close>

definition outage_run :: "event list" where
  "outage_run =
     [Data ''x\<newline>'', Settled refused_connection, Timer, Settled refused_connection,
      Settled refused_connection]"

section \<open>Retrieval: proofs\<close>

lemma find_upper_bound_unfold:
  "find_upper_bound logs t =
     (if t \<ge> 0 then
        (if populated logs t then (t, [t]) else probed t (find_upper_bound logs (t - 500)))
      else (-1, []))"
  by (subst find_upper_bound.simps) (simp add: populated_def split: call_result.split)

lemma binary_search_unfold:
  "binary_search logs low high h =
     (if low \<le> high then
        (if populated logs ((low + high) div 2)
         then probed ((low + high) div 2) (binary_search logs ((low + high) div 2 + 1) high ((low + high) div 2))
         else probed ((low + high) div 2) (binary_search logs low ((low + high) div 2 - 1) h))
      else (h, []))"
  by (subst binary_search.simps) (simp add: populated_def Let_def split: call_result.split)

lemma search_from_beginning_unfold:
  "search_from_beginning logs i h =
     (if i < 5000 then
        (if populated logs i then probed i (search_from_beginning logs (i + 1) i) else (h, [i]))
      else (h, []))"
  by (subst search_from_beginning.simps) (simp add: populated_def split: call_result.split)

lemma fst_probed [simp]: "fst (probed i r) = fst r"
  by (simp add: probed_def)

lemma snd_probed [simp]: "snd (probed i r) = i # snd r"
  by (simp add: probed_def)

lemma multiple_of_stride:
  assumes "0 < (t::int)" and "t mod 500 = 0"
  shows "500 \<le> t" and "(t - 500) mod 500 = 0"
proof -
  from assms have "500 dvd t" by (simp add: dvd_eq_mod_eq_0)
  then obtain q where q: "t = 500 * q" by (auto elim: dvdE)
  with assms have "1 \<le> q" by linarith
  with q show "500 \<le> t" by linarith
  from assms show "(t - 500) mod 500 = 0" by (simp add: mod_diff_eq)
qed

lemma find_upper_bound_dense:
  "\<forall>i. populated logs i = (0 \<le> i \<and> i < n) \<Longrightarrow> 0 < n \<Longrightarrow> 0 \<le> t \<Longrightarrow> t mod 500 = 0 \<Longrightarrow>
     0 \<le> fst (find_upper_bound logs t) \<and> fst (find_upper_bound logs t) < n \<and>
     (if t < n then fst (find_upper_bound logs t) = t else n \<le> fst (find_upper_bound logs t) + 500)"
proof (induction logs t rule: find_upper_bound.induct)
  case (1 logs t)
  note pop = \<open>\<forall>i. populated logs i = (0 \<le> i \<and> i < n)\<close>
  note nonneg = \<open>0 \<le> t\<close> and mult = \<open>t mod 500 = 0\<close>
  show ?case
  proof (cases "t < n")
    case True
    then have "populated logs t" using nonneg pop by simp
    then show ?thesis using True nonneg
      by (subst (1 2 3) find_upper_bound_unfold) simp
  next
    case False
    with \<open>0 < n\<close> have "0 < t" by simp
    from multiple_of_stride [OF this mult] have big: "500 \<le> t" and m': "(t - 500) mod 500 = 0" .
    have np: "\<not> populated logs t" using False pop by simp
    have rec: "0 \<le> fst (find_upper_bound logs (t - 500)) \<and> fst (find_upper_bound logs (t - 500)) < n \<and>
       (if t - 500 < n then fst (find_upper_bound logs (t - 500)) = t - 500
        else n \<le> fst (find_upper_bound logs (t - 500)) + 500)"
    proof (cases "logs t")
      case (Returned entry)
      with np have "message entry = []" by (simp add: populated_def)
      with Returned nonneg big m' pop \<open>0 < n\<close> show ?thesis using "1.IH"(1) by simp
    next
      case (Threw e)
      with nonneg big m' pop \<open>0 < n\<close> show ?thesis using "1.IH"(2) by simp
    qed
    have eq: "fst (find_upper_bound logs t) = fst (find_upper_bound logs (t - 500))"
      using np big by (subst find_upper_bound_unfold) simp
    from rec False show ?thesis unfolding eq by (auto split: if_splits)
  qed
qed

lemma find_upper_bound_reads:
  "length (snd (find_upper_bound logs t)) \<le> nat (t div 500 + 1)"
proof (induction logs t rule: find_upper_bound.induct)
  case (1 logs t)
  show ?case
  proof (cases "0 \<le> t \<and> \<not> populated logs t")
    case False
    then show ?thesis by (subst find_upper_bound_unfold) auto
  next
    case True
    have rec: "length (snd (find_upper_bound logs (t - 500))) \<le> nat ((t - 500) div 500 + 1)"
    proof (cases "logs t")
      case (Returned entry)
      with True have "message entry = []" by (simp add: populated_def)
      with Returned True show ?thesis using "1.IH"(1) by simp
    next
      case (Threw e)
      with True show ?thesis using "1.IH"(2) by simp
    qed
    have "length (snd (find_upper_bound logs t)) = Suc (length (snd (find_upper_bound logs (t - 500))))"
      using True by (subst find_upper_bound_unfold) simp
    also have "\<dots> \<le> Suc (nat ((t - 500) div 500 + 1))" using rec by simp
    also have "\<dots> = nat (t div 500 + 1)"
    proof -
      have "(t - 500) div 500 = t div 500 - 1"
        using div_add_self2 [of "500::int" "t - 500"] by simp
      moreover have "0 \<le> t div 500" using True by (simp add: pos_imp_zdiv_nonneg_iff)
      ultimately show ?thesis by simp
    qed
    finally show ?thesis .
  qed
qed

lemma find_upper_bound_none:
  "\<forall>i. \<not> populated logs i \<Longrightarrow> fst (find_upper_bound logs t) = -1"
proof (induction logs t rule: find_upper_bound.induct)
  case (1 logs t)
  show ?case
  proof (cases "0 \<le> t")
    case False
    then show ?thesis by (subst find_upper_bound_unfold) simp
  next
    case True
    have np: "\<not> populated logs t" using 1 by simp
    have "fst (find_upper_bound logs (t - 500)) = -1"
    proof (cases "logs t")
      case (Returned entry)
      with np have "message entry = []" by (simp add: populated_def)
      with Returned True "1.prems" show ?thesis using "1.IH"(1) by simp
    next
      case (Threw e)
      with True "1.prems" show ?thesis using "1.IH"(2) by simp
    qed
    then show ?thesis using np True by (subst find_upper_bound_unfold) simp
  qed
qed


lemma binary_search_rec:
  assumes "low \<le> high"
  shows "populated logs ((low + high) div 2) \<Longrightarrow>
           binary_search logs low high h =
             probed ((low + high) div 2) (binary_search logs ((low + high) div 2 + 1) high ((low + high) div 2))"
    and "\<not> populated logs ((low + high) div 2) \<Longrightarrow>
           binary_search logs low high h =
             probed ((low + high) div 2) (binary_search logs low ((low + high) div 2 - 1) h)"
  using assms by (subst binary_search_unfold, simp)+

lemma binary_search_induct [consumes 0, case_names stop up down]:
  assumes stop: "\<And>low high h. \<not> low \<le> high \<Longrightarrow> P low high h"
    and up: "\<And>low high h. low \<le> high \<Longrightarrow> populated logs ((low + high) div 2) \<Longrightarrow>
           P ((low + high) div 2 + 1) high ((low + high) div 2) \<Longrightarrow> P low high h"
    and down: "\<And>low high h. low \<le> high \<Longrightarrow> \<not> populated logs ((low + high) div 2) \<Longrightarrow>
           P low ((low + high) div 2 - 1) h \<Longrightarrow> P low high h"
  shows "P low high h"
proof (induction "nat (high - low + 1)" arbitrary: low high h rule: less_induct)
  case (less low high h)
  show ?case
  proof (cases "low \<le> high")
    case False
    then show ?thesis by (rule stop)
  next
    case True
    show ?thesis
    proof (cases "populated logs ((low + high) div 2)")
      case True
      have "P ((low + high) div 2 + 1) high ((low + high) div 2)"
        using \<open>low \<le> high\<close> by (intro less) linarith
      with \<open>low \<le> high\<close> True show ?thesis by (rule up)
    next
      case False
      have "P low ((low + high) div 2 - 1) h"
        using \<open>low \<le> high\<close> by (intro less) linarith
      with \<open>low \<le> high\<close> False show ?thesis by (rule down)
    qed
  qed
qed

lemma binary_search_stop: "\<not> low \<le> high \<Longrightarrow> binary_search logs low high h = (h, [])"
  by (subst binary_search_unfold) simp

lemma binary_search_dense:
  assumes pop: "\<forall>i. populated logs i = (0 \<le> i \<and> i < n)"
  shows "0 \<le> low \<Longrightarrow> low \<le> n \<Longrightarrow> n - 1 \<le> high \<Longrightarrow>
     fst (binary_search logs low high h) = (if low < n then n - 1 else h)"
proof (induction low high h rule: binary_search_induct [where logs = logs])
  case (stop low high h)
  then show ?case by (simp add: binary_search_stop)
next
  case (up low high h)
  from up(2) pop have "(low + high) div 2 < n" by simp
  moreover have "low \<le> (low + high) div 2" using up(1) by linarith
  ultimately show ?case using up by (simp add: binary_search_rec(1))
next
  case (down low high h)
  have "0 \<le> (low + high) div 2" using down by linarith
  with down(2) pop have "n \<le> (low + high) div 2" by simp
  then show ?case using down by (simp add: binary_search_rec(2))
qed

lemma binary_search_all_populated:
  assumes pop: "\<forall>i. populated logs i = (0 \<le> i \<and> i < n)"
  shows "0 \<le> low \<Longrightarrow> high < n \<Longrightarrow>
     fst (binary_search logs low high h) = (if low \<le> high then high else h)"
proof (induction low high h rule: binary_search_induct [where logs = logs])
  case (stop low high h)
  then show ?case by (simp add: binary_search_stop)
next
  case (up low high h)
  have "low \<le> (low + high) div 2" "(low + high) div 2 \<le> high" using up(1) by linarith+
  then show ?case using up by (simp add: binary_search_rec(1))
next
  case (down low high h)
  have "0 \<le> (low + high) div 2" "(low + high) div 2 \<le> high" using down by linarith+
  with down(2,5) pop have False by simp
  then show ?case ..
qed

lemma binary_search_reads:
  "high - low + 1 < 2 ^ m \<Longrightarrow> length (snd (binary_search logs low high h)) \<le> m"
proof (induction low high h arbitrary: m rule: binary_search_induct [where logs = logs])
  case (stop low high h)
  then show ?case by (simp add: binary_search_stop)
next
  case (up low high h)
  from up(1,4) obtain m' where m: "m = Suc m'" by (cases m) auto
  have "high - ((low + high) div 2 + 1) + 1 < 2 ^ m'" using up(1,4) unfolding m by (simp; linarith)
  from up(3) [OF this] show ?case using up(1,2) by (simp add: binary_search_rec(1) m)
next
  case (down low high h)
  from down(1,4) obtain m' where m: "m = Suc m'" by (cases m) auto
  have "(low + high) div 2 - 1 - low + 1 < 2 ^ m'" using down(1,4) unfolding m by (simp; linarith)
  from down(3) [OF this] show ?case using down(1,2) by (simp add: binary_search_rec(2) m)
qed

lemma search_from_beginning_none:
  "\<not> populated logs i \<Longrightarrow> i < 5000 \<Longrightarrow> search_from_beginning logs i h = (h, [i])"
  by (subst search_from_beginning_unfold) simp


lemma find_highest_index_upper:
  "0 \<le> fst (find_upper_bound logs 10000) \<Longrightarrow>
   find_highest_index logs =
     (fst (binary_search logs (fst (find_upper_bound logs 10000)) (fst (find_upper_bound logs 10000) + 1000) (-1)),
      snd (find_upper_bound logs 10000) @
      snd (binary_search logs (fst (find_upper_bound logs 10000)) (fst (find_upper_bound logs 10000) + 1000) (-1)))"
  by (simp add: find_highest_index_def case_prod_beta)

lemma find_highest_index_lower:
  "\<not> 0 \<le> fst (find_upper_bound logs 10000) \<Longrightarrow>
   find_highest_index logs =
     (fst (search_from_beginning logs 0 (-1)),
      snd (find_upper_bound logs 10000) @ snd (search_from_beginning logs 0 (-1)))"
  by (simp add: find_highest_index_def case_prod_beta)

lemma find_highest_index_dense:
  assumes pop: "\<forall>i. populated logs i = (0 \<le> i \<and> i < n)" and pos: "0 < n"
  shows "fst (find_highest_index logs) = (if n \<le> 11001 then n - 1 else 11000)"
    and "length (snd (find_highest_index logs)) \<le> 31"
proof -
  let ?ub = "fst (find_upper_bound logs 10000)"
  from find_upper_bound_dense [OF pop pos, of 10000]
  have ub: "0 \<le> ?ub" "?ub < n" "if 10000 < n then ?ub = 10000 else n \<le> ?ub + 500"
    by simp_all
  note eq = find_highest_index_upper [OF ub(1)]
  show "fst (find_highest_index logs) = (if n \<le> 11001 then n - 1 else 11000)"
  proof (cases "n \<le> 11001")
    case True
    with ub(3) have "n - 1 \<le> ?ub + 1000" by (auto split: if_splits)
    from binary_search_dense [OF pop ub(1) _ this, of "-1"] ub(2) True
    show ?thesis by (simp add: eq)
  next
    case False
    with ub(3) have "?ub = 10000" by simp
    with False have "?ub + 1000 < n" by simp
    from binary_search_all_populated [OF pop ub(1) this, of "-1"] False \<open>?ub = 10000\<close>
    show ?thesis by (simp add: eq)
  qed
  have "length (snd (find_upper_bound logs 10000)) \<le> 21"
    using find_upper_bound_reads [of logs 10000] by simp
  moreover have "length (snd (binary_search logs ?ub (?ub + 1000) (-1))) \<le> 10"
    by (rule binary_search_reads) simp
  ultimately show "length (snd (find_highest_index logs)) \<le> 31"
    by (simp add: eq)
qed

lemma find_highest_index_none:
  assumes "\<forall>i. \<not> populated logs i"
  shows "fst (find_highest_index logs) = -1"
    and "length (snd (find_highest_index logs)) \<le> 22"
proof -
  have ub: "fst (find_upper_bound logs 10000) = -1"
    using assms by (rule find_upper_bound_none)
  then have eq: "find_highest_index logs =
     (fst (search_from_beginning logs 0 (-1)),
      snd (find_upper_bound logs 10000) @ snd (search_from_beginning logs 0 (-1)))"
    by (intro find_highest_index_lower) simp
  have scan: "search_from_beginning logs 0 (-1) = (-1, [0])"
    using assms by (intro search_from_beginning_none) simp_all
  show "fst (find_highest_index logs) = -1" by (simp add: eq scan)
  have "length (snd (find_upper_bound logs 10000)) \<le> 21"
    using find_upper_bound_reads [of logs 10000] by simp
  then show "length (snd (find_highest_index logs)) \<le> 22" by (simp add: eq scan)
qed

lemma fetch_backwards_eq:
  "fetch_backwards logs i start = concat (map (read_entry logs) (rev [max 0 start .. i]))"
proof (induction logs i start rule: fetch_backwards.induct)
  case (1 logs i start)
  show ?case
  proof (cases "i \<ge> start \<and> i \<ge> 0")
    case False
    then show ?thesis by (subst fetch_backwards.simps) auto
  next
    case True
    then have range: "[max 0 start .. i] = [max 0 start .. i - 1] @ [i]"
      by (intro upto_rec2) simp
    have rec: "fetch_backwards logs (i - 1) start = concat (map (read_entry logs) (rev [max 0 start .. i - 1]))"
    proof (cases "logs i")
      case (Returned entry)
      with True show ?thesis using "1.IH"(1,2) by (cases "message entry = []") simp_all
    next
      case (Threw e)
      with True show ?thesis using "1.IH"(3) by simp
    qed
    have "fetch_backwards logs i start = read_entry logs i @ fetch_backwards logs (i - 1) start"
      using True by (subst fetch_backwards.simps) (simp add: read_entry_def split: call_result.split)
    then show ?thesis by (simp add: rec range)
  qed
qed

lemma length_read_entry: "length (read_entry logs i) \<le> 1"
  by (simp add: read_entry_def split: call_result.split)

lemma length_concat_reads: "length (concat (map (read_entry logs) is)) \<le> length is"
proof (induction "is")
  case Nil
  then show ?case by simp
next
  case (Cons i "is")
  then show ?case using length_read_entry [of logs i] by simp
qed

lemma index_read_entry: "map log_index (read_entry logs i) = (if populated logs i then [i] else [])"
  by (simp add: read_entry_def populated_def format_log_def split: call_result.split)

lemma index_concat_reads:
  "map log_index (concat (map (read_entry logs) is)) = filter (populated logs) is"
  by (induction "is") (simp_all add: index_read_entry)

lemma getLogsHandler_eq:
  "getLogsHandler logs getLogs =
     (let h = fst (find_highest_index logs);
          ls = concat (map (read_entry logs) (rev [max 0 (h - 99) .. h]))
      in Logs_ok (h + 1) (length ls) ls)"
proof -
  let ?h = "fst (find_highest_index logs)"
  let ?ls = "concat (map (read_entry logs) (rev [max 0 (?h - 99) .. ?h]))"
  have "length ?ls \<le> length (rev [max 0 (?h - 99) .. ?h])"
    by (rule length_concat_reads)
  also have "\<dots> \<le> 100" by simp
  finally have "take 100 ?ls = ?ls" by simp
  then show ?thesis
    by (simp add: getLogsHandler_def fetch_individually_def fetch_backwards_eq Let_def)
qed


subsection \<open>Index discovery\<close>

lemma dense_populated:
  "dense entries \<Longrightarrow> \<forall>i. populated (contract_logs entries) i = (0 \<le> i \<and> i < int (length entries))"
  by (auto simp: populated_def contract_logs_def dense_def)

lemma empty_not_populated: "\<forall>i. \<not> populated (contract_logs []) i"
  by (auto simp: populated_def contract_logs_def)

lemma unreachable_not_populated: "\<forall>i. \<not> populated unreachable_logs i"
  by (simp add: populated_def unreachable_logs_def)

lemma getLogsHandler_none:
  assumes "\<forall>i. \<not> populated logs i"
  shows "getLogsHandler logs getLogs = Logs_ok 0 0 []"
proof -
  have "fst (find_highest_index logs) = -1"
    using assms by (rule find_highest_index_none)
  then show ?thesis by (simp add: getLogsHandler_eq)
qed

lemma dense_replicate: "dense (replicate n sample_entry)"
  by (simp add: dense_def sample_entry_def)

text \<open>
  Claim C1, as the code has it. On a ledger whose entries all have a non-empty message and
  that holds at most 11001 of them (indices \<open>0..k\<close> with \<open>k \<le> 11000\<close>), the discovery
  phase returns exactly \<open>k\<close>, the index of the last entry, and \<open>-1\<close> (nothing found) on the
  empty ledger, for which the handler answers with count 0 and no entries. It reads at
  most 31 indices, however many entries there are: at most 21 in the backward stride from
  10000 and at most 10 in the binary search of the window of 1001 indices
  (\<open>binary_search_reads\<close>: a window smaller than \<open>2 ^ m\<close> costs at most \<open>m\<close> reads).
\<close>

theorem highest_index_located:
  "dense entries \<Longrightarrow> length entries \<le> 11001 \<Longrightarrow>
     fst (find_highest_index (contract_logs entries)) = int (length entries) - 1 \<and>
     length (snd (find_highest_index (contract_logs entries))) \<le> 31 \<and>
     fst (find_highest_index (contract_logs [])) = -1 \<and>
     getLogsHandler (contract_logs []) getLogs = Logs_ok 0 0 []"
proof -
  assume d: "dense entries" and len: "length entries \<le> 11001"
  have e1: "fst (find_highest_index (contract_logs [])) = -1"
    using empty_not_populated by (rule find_highest_index_none)
  have e2: "getLogsHandler (contract_logs []) getLogs = Logs_ok 0 0 []"
    using empty_not_populated by (rule getLogsHandler_none)
  show ?thesis
  proof (cases "entries = []")
    case True
    have "length (snd (find_highest_index (contract_logs []))) \<le> 22"
      using empty_not_populated by (rule find_highest_index_none)
    with True e1 e2 show ?thesis by simp
  next
    case False
    then have pos: "0 < int (length entries)" by simp
    note pop = dense_populated [OF d]
    from find_highest_index_dense [OF pop pos] len e1 e2 show ?thesis by simp
  qed
qed

theorem highest_index_located_witness:
  "dense [sample_entry, sample_entry, sample_entry] \<and>
   length [sample_entry, sample_entry, sample_entry] \<le> 11001 \<and>
   fst (find_highest_index (contract_logs [sample_entry, sample_entry, sample_entry])) = 2 \<and>
   length (snd (find_highest_index (contract_logs [sample_entry, sample_entry, sample_entry]))) \<le> 31"
  using highest_index_located [of "[sample_entry, sample_entry, sample_entry]"]
  by (simp add: dense_def sample_entry_def)

text \<open>
  Claim C1 as stated fails past the search window: with 11002 entries the index 11001 is
  populated and the discovery phase returns 11000.
\<close>

theorem highest_index_beyond_window:
  "dense (replicate 11002 sample_entry) \<and>
   populated (contract_logs (replicate 11002 sample_entry)) 11001 \<and>
   fst (find_highest_index (contract_logs (replicate 11002 sample_entry))) = 11000"
proof -
  note pop = dense_populated [OF dense_replicate, of 11002]
  have "fst (find_highest_index (contract_logs (replicate 11002 sample_entry))) = 11000"
    using find_highest_index_dense(1) [OF pop] by simp
  moreover have "populated (contract_logs (replicate 11002 sample_entry)) 11001"
    using pop by simp
  ultimately show ?thesis using dense_replicate [of 11002] by simp
qed

subsection \<open>The tail read\<close>

lemma read_entry_dense:
  "dense entries \<Longrightarrow> 0 \<le> i \<Longrightarrow> i < int (length entries) \<Longrightarrow>
     read_entry (contract_logs entries) i = [format_log i (entries ! nat i)]"
  by (simp add: read_entry_def contract_logs_def dense_def)

lemma concat_reads_dense:
  assumes "dense entries" and "\<forall>i \<in> set is. 0 \<le> i \<and> i < int (length entries)"
  shows "concat (map (read_entry (contract_logs entries)) is) = map (\<lambda>i. format_log i (entries ! nat i)) is"
  using assms(2) by (induction "is") (simp_all add: read_entry_dense [OF assms(1)])

lemma getLogsHandler_dense:
  assumes d: "dense entries" and "entries \<noteq> []" and len: "length entries \<le> 11001"
  shows "getLogsHandler (contract_logs entries) getLogs =
     Logs_ok (int (length entries)) (min (length entries) 100)
       (map (\<lambda>i. format_log i (entries ! nat i))
            (rev [max 0 (int (length entries) - 100) .. int (length entries) - 1]))"
proof -
  let ?n = "int (length entries)"
  from assms have pos: "0 < ?n" by simp
  have h: "fst (find_highest_index (contract_logs entries)) = ?n - 1"
    using find_highest_index_dense(1) [OF dense_populated [OF d] pos] len by simp
  have "concat (map (read_entry (contract_logs entries)) (rev [max 0 (?n - 100) .. ?n - 1])) =
      map (\<lambda>i. format_log i (entries ! nat i)) (rev [max 0 (?n - 100) .. ?n - 1])"
    by (rule concat_reads_dense [OF d]) auto
  moreover have "length [max 0 (?n - 100) .. ?n - 1] = min (length entries) 100"
    using pos by (simp add: min_def max_def)
  ultimately show ?thesis
    by (simp add: getLogsHandler_eq h Let_def)
qed

text \<open>
  Claim C2, as the code has it. Let \<open>h\<close> be the index the discovery phase returns. The
  handler answers with total count \<open>h + 1\<close> and with the entries read at the indices
  \<open>h, h - 1, ..., max 0 (h - 99)\<close>, newest first: an index whose read throws or returns an
  empty message contributes nothing (it is skipped, and nothing stands in for it), so there
  are at most 100 entries and their indices are the populated ones of that range, in
  descending order. On a dense ledger of at most 11001 entries \<open>h\<close> is the highest
  populated index and every index of the range is returned; a dense ledger of size 3164
  gives exactly 100 entries, with indices 3163 down to 3064, and total count 3164.
\<close>

theorem latest_hundred:
  "(let h = fst (find_highest_index logs);
        ls = concat (map (read_entry logs) (rev [max 0 (h - 99) .. h]))
    in getLogsHandler logs getLogs = Logs_ok (h + 1) (length ls) ls \<and> length ls \<le> 100 \<and>
       map log_index ls = filter (populated logs) (rev [max 0 (h - 99) .. h])) \<and>
   (dense entries \<and> entries \<noteq> [] \<and> length entries \<le> 11001 \<longrightarrow>
      getLogsHandler (contract_logs entries) getLogs =
        Logs_ok (int (length entries)) (min (length entries) 100)
          (map (\<lambda>i. format_log i (entries ! nat i))
               (rev [max 0 (int (length entries) - 100) .. int (length entries) - 1]))) \<and>
   (dense entries \<and> length entries = 3164 \<longrightarrow>
      resp_count (getLogsHandler (contract_logs entries) getLogs) = 3164 \<and>
      resp_displayed (getLogsHandler (contract_logs entries) getLogs) = 100 \<and>
      map log_index (resp_logs (getLogsHandler (contract_logs entries) getLogs)) = rev [3064 .. 3163])"
proof -
  let ?h = "fst (find_highest_index logs)"
  let ?ls = "concat (map (read_entry logs) (rev [max 0 (?h - 99) .. ?h]))"
  have "length ?ls \<le> length (rev [max 0 (?h - 99) .. ?h])"
    by (rule length_concat_reads)
  also have "\<dots> \<le> 100" by simp
  finally have a: "length ?ls \<le> 100" .
  have b: "map log_index ?ls = filter (populated logs) (rev [max 0 (?h - 99) .. ?h])"
    by (rule index_concat_reads)
  have c: "getLogsHandler logs getLogs = Logs_ok (?h + 1) (length ?ls) ?ls"
    by (simp add: getLogsHandler_eq Let_def)
  have d: "getLogsHandler (contract_logs entries) getLogs =
        Logs_ok (int (length entries)) (min (length entries) 100)
          (map (\<lambda>i. format_log i (entries ! nat i))
               (rev [max 0 (int (length entries) - 100) .. int (length entries) - 1]))"
    if "dense entries" "entries \<noteq> []" "length entries \<le> 11001"
    using that by (rule getLogsHandler_dense)
  have e: "resp_count (getLogsHandler (contract_logs entries) getLogs) = 3164 \<and>
      resp_displayed (getLogsHandler (contract_logs entries) getLogs) = 100 \<and>
      map log_index (resp_logs (getLogsHandler (contract_logs entries) getLogs)) = rev [3064 .. 3163]"
    if "dense entries" "length entries = 3164"
  proof -
    from that have "entries \<noteq> []" "length entries \<le> 11001" by auto
    from getLogsHandler_dense [OF that(1) this] that(2)
    show ?thesis by (simp add: rev_map [symmetric] o_def format_log_def)
  qed
  from a b c d e show ?thesis by (simp add: Let_def)
qed

theorem latest_hundred_witness:
  "dense (replicate 3164 sample_entry) \<and> replicate 3164 sample_entry \<noteq> [] \<and>
   length (replicate 3164 sample_entry) \<le> 11001 \<and> length (replicate 3164 sample_entry) = 3164 \<and>
   getLogsHandler (contract_logs (replicate 3164 sample_entry)) (contract_getLogs (replicate 3164 sample_entry)) =
     Logs_ok (int (length (replicate 3164 sample_entry))) (min (length (replicate 3164 sample_entry)) 100)
       (map (\<lambda>i. format_log i (replicate 3164 sample_entry ! nat i))
            (rev [max 0 (int (length (replicate 3164 sample_entry)) - 100) ..
                  int (length (replicate 3164 sample_entry)) - 1])) \<and>
   resp_count (getLogsHandler (contract_logs (replicate 3164 sample_entry)) (contract_getLogs (replicate 3164 sample_entry))) = 3164 \<and>
   resp_displayed (getLogsHandler (contract_logs (replicate 3164 sample_entry)) (contract_getLogs (replicate 3164 sample_entry))) = 100 \<and>
   map log_index (resp_logs (getLogsHandler (contract_logs (replicate 3164 sample_entry)) (contract_getLogs (replicate 3164 sample_entry))))
     = rev [3064 .. 3163]"
proof -
  let ?E = "replicate 3164 sample_entry"
  have d: "dense ?E" by (rule dense_replicate)
  have l: "length ?E = 3164" by simp
  have n: "?E \<noteq> []" by simp
  have b: "length ?E \<le> 11001" by simp
  note inst = latest_hundred [of unreachable_logs "contract_getLogs ?E" ?E]
  note whole = inst [THEN conjunct2, THEN conjunct1, THEN mp, OF conjI [OF d conjI [OF n b]]]
  note tail = inst [THEN conjunct2, THEN conjunct2, THEN mp, OF conjI [OF d l]]
  from d n b l whole tail show ?thesis by blast
qed

text \<open>
  Claim C2 as stated fails where the discovery phase stops short of the highest populated
  index: on a dense ledger of 12000 entries (highest populated index 11999) the reported
  total count is 11001, not 12000.
\<close>

theorem count_beyond_window:
  "dense (replicate 12000 sample_entry) \<and>
   populated (contract_logs (replicate 12000 sample_entry)) 11999 \<and>
   resp_count (getLogsHandler (contract_logs (replicate 12000 sample_entry))
      (contract_getLogs (replicate 12000 sample_entry))) = 11001"
proof -
  note pop = dense_populated [OF dense_replicate, of 12000]
  have "fst (find_highest_index (contract_logs (replicate 12000 sample_entry))) = 11000"
    using find_highest_index_dense(1) [OF pop] by simp
  then have "resp_count (getLogsHandler (contract_logs (replicate 12000 sample_entry))
      (contract_getLogs (replicate 12000 sample_entry))) = 11001"
    by (simp add: getLogsHandler_eq Let_def)
  moreover have "populated (contract_logs (replicate 12000 sample_entry)) 11999"
    using pop by simp
  ultimately show ?thesis using dense_replicate [of 12000] by simp
qed

text \<open>
  Claim C3 does not hold of the code. Every \<open>catch\<close> around a read treats any exception
  as a missing index. When each read is refused by the network, with an error that the
  handler's own outer \<open>catch\<close> would class as a connection error (status 503), the upper
  bound search finds nothing, the scan from 0 stops at once, and the handler answers with
  success, count 0 and no entries: the very answer it gives for an empty ledger.
\<close>

theorem unreachable_ledger_reads_as_empty:
  "connection_error (err_message unreachable_error) \<and>
   getLogsHandler unreachable_logs (Threw unreachable_error) = Logs_ok 0 0 []"
proof -
  have "connection_error (err_message unreachable_error)"
    by (simp add: connection_error_def unreachable_error_def)
  moreover have "getLogsHandler unreachable_logs (Threw unreachable_error) = Logs_ok 0 0 []"
    using unreachable_not_populated by (rule getLogsHandler_none)
  ultimately show ?thesis by simp
qed


section \<open>Ingestion: proofs\<close>

subsection \<open>The branches of \<open>sendLogToBlockchain\<close>\<close>

lemma smod_one [simp]: "(x::int) smod 1 = 0"
  by (simp add: signed_modulo_int_def)

lemma sendLog_begin_stopped:
  "isStopped s \<Longrightarrow> sendLog_begin clock msg s = (Resolved (Some False), [], s)"
  by (simp add: sendLog_begin_def)

lemma sendLog_begin_refused:
  assumes "\<not> isStopped s" and "MAX_LOGS_PER_DAY \<le> dailyLogCount s"
    and "clock (clock_reads s) < dailyResetTime s"
  shows "sendLog_begin clock msg s =
     (Resolved (Some False), [Console_error limit_reached_text], s\<lparr>clock_reads := Suc (clock_reads s)\<rparr>)"
  using assms by (simp add: sendLog_begin_def Date_now_def Let_def)

lemma sendLog_begin_reset:
  assumes "\<not> isStopped s" and "dailyResetTime s \<le> clock (clock_reads s)"
  shows "sendLog_begin clock msg s =
     (if msg = [] \<or> trim msg = [] then Resolved None else Awaiting_fetch,
      if msg = [] \<or> trim msg = [] then [] else [Fetch_post (trim msg)],
      s\<lparr>clock_reads := Suc (clock_reads s), dailyLogCount := 0,
        dailyResetTime := clock (clock_reads s) + day_ms\<rparr>)"
  using assms by (simp add: sendLog_begin_def Date_now_def Let_def MAX_LOGS_PER_DAY_def)

lemma sendLog_begin_admitted:
  assumes "\<not> isStopped s" and "dailyLogCount s < MAX_LOGS_PER_DAY"
    and "clock (clock_reads s) < dailyResetTime s"
  shows "sendLog_begin clock msg s =
     (if msg = [] \<or> trim msg = [] then Resolved None else Awaiting_fetch,
      if msg = [] \<or> trim msg = [] then [] else [Fetch_post (trim msg)],
      s\<lparr>clock_reads := Suc (clock_reads s)\<rparr>)"
  using assms by (simp add: sendLog_begin_def Date_now_def Let_def)

lemma sendLog_settle_ok:
  "sendLog_settle clock (Response True (Json_parsed r)) s =
     (True, if serverAvailable s then [] else [Console_log reconnected_text],
      s\<lparr>dailyLogCount := dailyLogCount s + 1, serverAvailable := True\<rparr>)"
  by (cases s) (simp add: sendLog_settle_def Let_def)


subsection \<open>The queue never exceeds its capacity\<close>

lemma sendLog_begin_queue:
  "logQueue (snd (snd (sendLog_begin clock msg s))) = logQueue s"
  by (simp add: sendLog_begin_def Date_now_def Let_def)

lemma sendLog_settle_queue:
  "logQueue (snd (snd (sendLog_settle clock outcome s))) = logQueue s"
  by (simp add: sendLog_settle_def send_catch_def Date_now_def Let_def
      split: fetch_outcome.split json_outcome.split)

lemma processLogQueue_queue:
  "logQueue (snd (processLogQueue clock s)) = logQueue s \<or>
   logQueue (snd (processLogQueue clock s)) = tl (logQueue s)"
  by (simp add: processLogQueue_def Date_now_def Let_def case_prod_beta sendLog_begin_queue
      split: list.split)

lemma processLogQueue_bound:
  "length (logQueue s) \<le> n \<Longrightarrow> length (logQueue (snd (processLogQueue clock s))) \<le> n"
  using processLogQueue_queue [of clock s] by auto

lemma enqueue_bound:
  "length (logQueue s) \<le> MAX_QUEUE_SIZE \<Longrightarrow> length (logQueue (enqueue msg s)) \<le> MAX_QUEUE_SIZE"
  by (auto simp: enqueue_def MAX_QUEUE_SIZE_def Let_def)

lemma queueLogForSending_bound:
  "length (logQueue s) \<le> MAX_QUEUE_SIZE \<Longrightarrow>
   length (logQueue (snd (queueLogForSending clock msg s))) \<le> MAX_QUEUE_SIZE"
  by (simp add: queueLogForSending_def processLogQueue_bound enqueue_bound)

lemma queue_lines_bound:
  "length (logQueue s) \<le> MAX_QUEUE_SIZE \<Longrightarrow>
   length (logQueue (snd (queue_lines clock lines s))) \<le> MAX_QUEUE_SIZE"
proof (induction lines arbitrary: s)
  case Nil
  then show ?case by simp
next
  case (Cons line lines)
  show ?case
  proof (cases "trim line = []")
    case True
    with Cons show ?thesis by simp
  next
    case False
    have "length (logQueue (snd (queueLogForSending clock line s))) \<le> MAX_QUEUE_SIZE"
      using Cons.prems by (rule queueLogForSending_bound)
    from Cons.IH [OF this] False show ?thesis
      by (simp add: case_prod_beta Let_def)
  qed
qed

lemma step_bound:
  "length (logQueue s) \<le> MAX_QUEUE_SIZE \<Longrightarrow>
   length (logQueue (snd (step clock e s))) \<le> MAX_QUEUE_SIZE"
proof (cases e)
  case (Data chunk)
  assume "length (logQueue s) \<le> MAX_QUEUE_SIZE"
  then have "length (logQueue (s\<lparr>logBuffer := last (split_newline (logBuffer s @ chunk))\<rparr>)) \<le> MAX_QUEUE_SIZE"
    by simp
  from queue_lines_bound [OF this] Data show ?thesis
    by (simp add: step_def on_data_def Let_def)
next
  case Timer
  then show "length (logQueue s) \<le> MAX_QUEUE_SIZE \<Longrightarrow> ?thesis"
    by (simp add: step_def processLogQueue_bound)
next
  case (Settled outcome)
  then show "length (logQueue s) \<le> MAX_QUEUE_SIZE \<Longrightarrow> ?thesis"
    using sendLog_settle_queue [of clock outcome s]
    by (simp add: step_def case_prod_beta)
next
  case (Signal sig)
  then show ?thesis by (simp add: step_def on_signal_def)
qed

lemma run_bound:
  "length (logQueue s) \<le> MAX_QUEUE_SIZE \<Longrightarrow>
   length (logQueue (snd (run clock evs s))) \<le> MAX_QUEUE_SIZE"
proof (induction evs arbitrary: s)
  case Nil
  then show ?case by simp
next
  case (Cons e evs)
  from Cons.IH [OF step_bound [OF Cons.prems, of clock e]]
  show ?case by (simp add: case_prod_beta Let_def)
qed


subsection \<open>Effects of a sequence\<close>

lemma dispatch_times_append [simp]:
  "dispatch_times (a @ b) = dispatch_times a @ dispatch_times b"
  by (induction a rule: dispatch_times.induct) simp_all

lemma dispatched_append [simp]: "dispatched (a @ b) = dispatched a @ dispatched b"
  by (induction a rule: dispatched.induct) simp_all

lemma posts_append [simp]: "posts (a @ b) = posts a @ posts b"
  by (induction a rule: posts.induct) simp_all

lemma errors_append [simp]: "errors (a @ b) = errors a @ errors b"
  by (induction a rule: errors.induct) simp_all

lemma infos_append [simp]: "infos (a @ b) = infos a @ infos b"
  by (induction a rule: infos.induct) simp_all

lemma ledger_calls_of_append [simp]:
  "ledger_calls_of est send (a @ b) = ledger_calls_of est send a @ ledger_calls_of est send b"
  by (induction est send a rule: ledger_calls_of.induct) simp_all

lemma ledger_calls_of_no_posts: "posts out = [] \<Longrightarrow> ledger_calls_of est send out = []"
  by (induction est send out rule: ledger_calls_of.induct) simp_all

lemma run_append:
  "run clock (xs @ ys) s =
     (fst (run clock xs s) @ fst (run clock ys (snd (run clock xs s))),
      snd (run clock ys (snd (run clock xs s))))"
  by (induction xs arbitrary: s) (simp_all add: case_prod_beta Let_def)

lemma run_Cons:
  "run clock (e # es) s =
     (fst (step clock e s) @ fst (run clock es (snd (step clock e s))),
      snd (run clock es (snd (step clock e s))))"
  by (simp add: case_prod_beta Let_def)

lemma queue_lines_Cons:
  "queue_lines clock (line # lines) s =
     (if trim line \<noteq> [] then
        (Console_log line # fst (queueLogForSending clock line s) @
           fst (queue_lines clock lines (snd (queueLogForSending clock line s))),
         snd (queue_lines clock lines (snd (queueLogForSending clock line s))))
      else queue_lines clock lines s)"
  by (simp add: case_prod_beta Let_def)

subsection \<open>The branches of \<open>processLogQueue\<close>\<close>

lemma sendLog_begin_effects:
  "dispatch_times (fst (snd (sendLog_begin clock msg s))) = []"
  "dispatched (fst (snd (sendLog_begin clock msg s))) = []"
  by (simp_all add: sendLog_begin_def Date_now_def Let_def)

lemma sendLog_settle_effects:
  "dispatch_times (fst (snd (sendLog_settle clock outcome s))) = []"
  "dispatched (fst (snd (sendLog_settle clock outcome s))) = []"
  "posts (fst (snd (sendLog_settle clock outcome s))) = []"
  by (simp_all add: sendLog_settle_def send_catch_def Date_now_def Let_def
      split: fetch_outcome.split json_outcome.split)

lemma sendLog_begin_lastSent:
  "lastSentTime (snd (snd (sendLog_begin clock msg s))) = lastSentTime s"
  by (simp add: sendLog_begin_def Date_now_def Let_def)

lemma sendLog_settle_lastSent:
  "lastSentTime (snd (snd (sendLog_settle clock outcome s))) = lastSentTime s"
  by (simp add: sendLog_settle_def send_catch_def Date_now_def Let_def
      split: fetch_outcome.split json_outcome.split)

lemma processLogQueue_wait:
  "clock (clock_reads s) - lastSentTime s < SEND_INTERVAL_MS \<Longrightarrow>
   processLogQueue clock s =
     ([Set_timeout (SEND_INTERVAL_MS - (clock (clock_reads s) - lastSentTime s))],
      s\<lparr>clock_reads := Suc (clock_reads s)\<rparr>)"
  by (simp add: processLogQueue_def Date_now_def Let_def)

lemma processLogQueue_idle:
  "\<not> clock (clock_reads s) - lastSentTime s < SEND_INTERVAL_MS \<Longrightarrow> logQueue s = [] \<Longrightarrow>
   processLogQueue clock s = ([], s\<lparr>clock_reads := Suc (clock_reads s)\<rparr>)"
  by (simp add: processLogQueue_def Date_now_def Let_def)

lemma processLogQueue_dispatch:
  assumes "\<not> clock (clock_reads s) - lastSentTime s < SEND_INTERVAL_MS" and "logQueue s = m # rest"
  shows "processLogQueue clock s =
     (let s4 = s\<lparr>clock_reads := Suc (Suc (clock_reads s)), logQueue := rest,
                  lastSentTime := clock (Suc (clock_reads s))\<rparr>
      in (Dispatched (clock (Suc (clock_reads s))) m # fst (snd (sendLog_begin clock m s4)) @
            (if rest \<noteq> [] then [Set_timeout SEND_INTERVAL_MS] else []),
          snd (snd (sendLog_begin clock m s4))))"
  using assms
  by (cases s) (simp add: processLogQueue_def Date_now_def Let_def case_prod_beta sendLog_begin_queue)


subsection \<open>Dispatches are paced\<close>

lemma paced_quiet: "dispatch_times out = [] \<Longrightarrow> L \<le> L' \<Longrightarrow> paced L out L'"
  by (simp add: paced_def)

lemma paced_append: "paced L a L1 \<Longrightarrow> paced L1 b L2 \<Longrightarrow> paced L (a @ b) L2"
  by (fastforce simp: paced_def sorted_wrt_append)

lemma paced_Console_log: "paced L out L' \<Longrightarrow> paced L (Console_log text # out) L'"
  by (simp add: paced_def)

lemma monotone_clock_Suc: "monotone_clock clock \<Longrightarrow> clock k \<le> clock (Suc k)"
  by (simp add: monotone_clock_def)

lemma processLogQueue_paced:
  assumes "monotone_clock clock"
  shows "paced (lastSentTime s) (fst (processLogQueue clock s)) (lastSentTime (snd (processLogQueue clock s)))"
proof (cases "clock (clock_reads s) - lastSentTime s < SEND_INTERVAL_MS")
  case True
  then show ?thesis by (simp add: processLogQueue_wait paced_def)
next
  case False
  show ?thesis
  proof (cases "logQueue s")
    case Nil
    with False show ?thesis by (simp add: processLogQueue_idle paced_def)
  next
    case (Cons m rest)
    from monotone_clock_Suc [OF assms, of "clock_reads s"] False
    have "lastSentTime s + SEND_INTERVAL_MS \<le> clock (Suc (clock_reads s))"
      and "lastSentTime s \<le> clock (Suc (clock_reads s))"
      by (simp_all add: SEND_INTERVAL_MS_def)
    then show ?thesis
      by (simp add: processLogQueue_dispatch [where clock = clock and s = s, OF False Cons] Let_def paced_def
          sendLog_begin_effects sendLog_begin_lastSent)
  qed
qed

lemma enqueue_lastSent: "lastSentTime (enqueue msg s) = lastSentTime s"
  by (simp add: enqueue_def Let_def)

lemma queueLogForSending_paced:
  assumes "monotone_clock clock"
  shows "paced (lastSentTime s) (fst (queueLogForSending clock msg s))
           (lastSentTime (snd (queueLogForSending clock msg s)))"
  using processLogQueue_paced [OF assms, of "enqueue msg s"]
  by (simp add: queueLogForSending_def enqueue_lastSent paced_def)

lemma queue_lines_paced:
  assumes "monotone_clock clock"
  shows "paced (lastSentTime s) (fst (queue_lines clock lines s))
           (lastSentTime (snd (queue_lines clock lines s)))"
proof (induction lines arbitrary: s)
  case Nil
  show ?case by (simp add: paced_def)
next
  case (Cons line lines)
  show ?case
  proof (cases "trim line = []")
    case True
    with Cons show ?thesis by simp
  next
    case False
    from paced_append [OF queueLogForSending_paced [OF assms, of s line] Cons.IH]
    show ?thesis using False
      by (simp add: queue_lines_Cons paced_Console_log del: queue_lines.simps)
  qed
qed

lemma step_paced:
  assumes "monotone_clock clock"
  shows "paced (lastSentTime s) (fst (step clock e s)) (lastSentTime (snd (step clock e s)))"
proof (cases e)
  case (Data chunk)
  from queue_lines_paced [OF assms, of "s\<lparr>logBuffer := last (split_newline (logBuffer s @ chunk))\<rparr>"]
  show ?thesis using Data by (simp add: step_def on_data_def Let_def)
next
  case Timer
  with processLogQueue_paced [OF assms, of s] show ?thesis by (simp add: step_def)
next
  case (Settled outcome)
  then show ?thesis
    by (simp add: step_def case_prod_beta paced_def sendLog_settle_effects sendLog_settle_lastSent)
next
  case (Signal sig)
  then show ?thesis by (simp add: step_def on_signal_def paced_def)
qed

lemma run_paced:
  assumes "monotone_clock clock"
  shows "paced (lastSentTime s) (fst (run clock evs s)) (lastSentTime (snd (run clock evs s)))"
proof (induction evs arbitrary: s)
  case Nil
  show ?case by (simp add: paced_def)
next
  case (Cons e evs)
  from paced_append [OF step_paced [OF assms, of s e] Cons.IH]
  show ?case by (simp add: run_Cons del: run.simps)
qed

subsection \<open>Nothing is sent once the daily limit is reached\<close>

lemma sendLog_begin_exhausted:
  assumes "exhausted R s" and "\<forall>k. clock k < R"
  shows "posts (fst (snd (sendLog_begin clock msg s))) = []"
    and "exhausted R (snd (snd (sendLog_begin clock msg s)))"
proof -
  from assms have a: "MAX_LOGS_PER_DAY \<le> dailyLogCount s" "clock (clock_reads s) < dailyResetTime s"
    by (simp_all add: exhausted_def)
  show "posts (fst (snd (sendLog_begin clock msg s))) = []"
    using a by (cases "isStopped s") (simp_all add: sendLog_begin_stopped sendLog_begin_refused)
  show "exhausted R (snd (snd (sendLog_begin clock msg s)))"
    using a assms(1)
    by (cases "isStopped s") (simp_all add: sendLog_begin_stopped sendLog_begin_refused exhausted_def)
qed

lemma processLogQueue_exhausted:
  assumes "exhausted R s" and "\<forall>k. clock k < R"
  shows "posts (fst (processLogQueue clock s)) = []"
    and "exhausted R (snd (processLogQueue clock s))"
proof -
  have "posts (fst (processLogQueue clock s)) = [] \<and> exhausted R (snd (processLogQueue clock s))"
  proof (cases "clock (clock_reads s) - lastSentTime s < SEND_INTERVAL_MS")
    case True
    with assms(1) show ?thesis by (simp add: processLogQueue_wait exhausted_def)
  next
    case False
    show ?thesis
    proof (cases "logQueue s")
      case Nil
      with False assms(1) show ?thesis by (simp add: processLogQueue_idle exhausted_def)
    next
      case (Cons m rest)
      let ?s4 = "s\<lparr>clock_reads := Suc (Suc (clock_reads s)), logQueue := rest,
                  lastSentTime := clock (Suc (clock_reads s))\<rparr>"
      from assms(1) have "exhausted R ?s4" by (simp add: exhausted_def)
      from sendLog_begin_exhausted [OF this assms(2), of m]
      show ?thesis by (simp add: processLogQueue_dispatch [where clock = clock and s = s, OF False Cons] Let_def)
    qed
  qed
  then show "posts (fst (processLogQueue clock s)) = []"
    and "exhausted R (snd (processLogQueue clock s))" by simp_all
qed

lemma queueLogForSending_exhausted:
  assumes "exhausted R s" and "\<forall>k. clock k < R"
  shows "posts (fst (queueLogForSending clock msg s)) = []"
    and "exhausted R (snd (queueLogForSending clock msg s))"
proof -
  from assms(1) have "exhausted R (enqueue msg s)" by (simp add: exhausted_def enqueue_def Let_def)
  from processLogQueue_exhausted [OF this assms(2)] assms(1)
  show "posts (fst (queueLogForSending clock msg s)) = []"
    and "exhausted R (snd (queueLogForSending clock msg s))"
    by (simp_all add: queueLogForSending_def)
qed

lemma queue_lines_exhausted:
  assumes "\<forall>k. clock k < R"
  shows "exhausted R s \<Longrightarrow>
    posts (fst (queue_lines clock lines s)) = [] \<and> exhausted R (snd (queue_lines clock lines s))"
proof (induction lines arbitrary: s)
  case Nil
  then show ?case by simp
next
  case (Cons line lines)
  show ?case
  proof (cases "trim line = []")
    case True
    with Cons show ?thesis by simp
  next
    case False
    note q = queueLogForSending_exhausted [OF Cons.prems assms, of line]
    from Cons.IH [OF q(2)] q(1) False show ?thesis
      by (simp add: queue_lines_Cons del: queue_lines.simps)
  qed
qed

lemma sendLog_settle_exhausted:
  "exhausted R s \<Longrightarrow> exhausted R (snd (snd (sendLog_settle clock outcome s)))"
  by (auto simp: exhausted_def sendLog_settle_def send_catch_def Date_now_def Let_def
      split: fetch_outcome.split json_outcome.split)

lemma step_exhausted:
  assumes "exhausted R s" and "\<forall>k. clock k < R"
  shows "posts (fst (step clock e s)) = [] \<and> exhausted R (snd (step clock e s))"
proof (cases e)
  case (Data chunk)
  from assms(1) have "exhausted R (s\<lparr>logBuffer := last (split_newline (logBuffer s @ chunk))\<rparr>)"
    by (simp add: exhausted_def)
  from queue_lines_exhausted [OF assms(2) this] Data show ?thesis
    by (simp add: step_def on_data_def Let_def)
next
  case Timer
  with processLogQueue_exhausted [OF assms] show ?thesis by (simp add: step_def)
next
  case (Settled outcome)
  with sendLog_settle_exhausted [OF assms(1), of clock outcome] show ?thesis
    by (simp add: step_def case_prod_beta sendLog_settle_effects)
next
  case (Signal sig)
  with assms(1) show ?thesis by (simp add: step_def on_signal_def exhausted_def)
qed

lemma run_exhausted:
  assumes "\<forall>k. clock k < R"
  shows "exhausted R s \<Longrightarrow>
    posts (fst (run clock evs s)) = [] \<and> exhausted R (snd (run clock evs s))"
proof (induction evs arbitrary: s)
  case Nil
  then show ?case by simp
next
  case (Cons e evs)
  note st = step_exhausted [OF Cons.prems assms, of e]
  from Cons.IH [of "snd (step clock e s)"] st show ?case
    by (simp add: run_Cons del: run.simps)
qed

subsection \<open>A stopped service has an empty queue\<close>

lemma sendLog_begin_stopped_flag:
  "isStopped (snd (snd (sendLog_begin clock msg s))) = isStopped s"
  by (simp add: sendLog_begin_def Date_now_def Let_def)

lemma sendLog_settle_stopped_flag:
  "isStopped (snd (snd (sendLog_settle clock outcome s))) = isStopped s"
  by (simp add: sendLog_settle_def send_catch_def Date_now_def Let_def
      split: fetch_outcome.split json_outcome.split)

lemma processLogQueue_stopped_flag:
  "isStopped (snd (processLogQueue clock s)) = isStopped s"
  by (simp add: processLogQueue_def Date_now_def Let_def case_prod_beta sendLog_begin_stopped_flag
      split: list.split)

lemma processLogQueue_cleared:
  "isStopped s \<longrightarrow> logQueue s = [] \<Longrightarrow>
   isStopped (snd (processLogQueue clock s)) \<longrightarrow> logQueue (snd (processLogQueue clock s)) = []"
  using processLogQueue_queue [of clock s] by (auto simp: processLogQueue_stopped_flag)

lemma queueLogForSending_cleared:
  "isStopped s \<longrightarrow> logQueue s = [] \<Longrightarrow>
   isStopped (snd (queueLogForSending clock msg s)) \<longrightarrow>
     logQueue (snd (queueLogForSending clock msg s)) = []"
  by (simp add: queueLogForSending_def processLogQueue_stopped_flag enqueue_def Let_def)

lemma queue_lines_cleared:
  "isStopped s \<longrightarrow> logQueue s = [] \<Longrightarrow>
   isStopped (snd (queue_lines clock lines s)) \<longrightarrow> logQueue (snd (queue_lines clock lines s)) = []"
proof (induction lines arbitrary: s)
  case Nil
  then show ?case by simp
next
  case (Cons line lines)
  show ?case
  proof (cases "trim line = []")
    case True
    with Cons show ?thesis by simp
  next
    case False
    from Cons.IH [OF queueLogForSending_cleared [OF Cons.prems, of clock line]] False
    show ?thesis by (simp add: queue_lines_Cons del: queue_lines.simps)
  qed
qed

lemma step_cleared:
  assumes "isStopped s \<longrightarrow> logQueue s = []"
  shows "isStopped (snd (step clock e s)) \<longrightarrow> logQueue (snd (step clock e s)) = []"
proof (cases e)
  case (Data chunk)
  from assms have "isStopped (s\<lparr>logBuffer := last (split_newline (logBuffer s @ chunk))\<rparr>) \<longrightarrow>
      logQueue (s\<lparr>logBuffer := last (split_newline (logBuffer s @ chunk))\<rparr>) = []"
    by simp
  from queue_lines_cleared [OF this] Data show ?thesis
    by (simp add: step_def on_data_def Let_def)
next
  case Timer
  with processLogQueue_cleared [OF assms] show ?thesis by (simp add: step_def)
next
  case (Settled outcome)
  with assms show ?thesis
    by (simp add: step_def case_prod_beta sendLog_settle_stopped_flag sendLog_settle_queue)
next
  case (Signal sig)
  then show ?thesis by (simp add: step_def on_signal_def)
qed

lemma run_cleared:
  "isStopped s \<longrightarrow> logQueue s = [] \<Longrightarrow>
   isStopped (snd (run clock evs s)) \<longrightarrow> logQueue (snd (run clock evs s)) = []"
proof (induction evs arbitrary: s)
  case Nil
  then show ?case by simp
next
  case (Cons e evs)
  from Cons.IH [OF step_cleared [OF Cons.prems, of clock e]]
  show ?case by (simp add: run_Cons del: run.simps)
qed

lemma full_not_stopped:
  "length (logQueue (snd (run clock evs (initial clock)))) = MAX_QUEUE_SIZE \<Longrightarrow>
   \<not> isStopped (snd (run clock evs (initial clock)))"
proof -
  have "isStopped (initial clock) \<longrightarrow> logQueue (initial clock) = []" by (simp add: initial_def)
  from run_cleared [OF this, of clock evs]
  show "length (logQueue (snd (run clock evs (initial clock)))) = MAX_QUEUE_SIZE \<Longrightarrow> ?thesis"
    by (auto simp: MAX_QUEUE_SIZE_def)
qed

section \<open>Ingestion: the properties\<close>

subsection \<open>Runs up to the daily limit\<close>

lemma trim_x [simp]: "trim ''x'' = ''x''" "trim ''y'' = ''y''" "trim ''z'' = ''z''"
  by (simp_all add: trim_def js_whitespace_def)

lemma on_data_line:
  "logBuffer s = [] \<Longrightarrow> trim [c] \<noteq> [] \<Longrightarrow> c \<noteq> CHR 0x0A \<Longrightarrow>
   on_data clock [c, CHR 0x0A] s =
     (Console_log [c] # fst (queueLogForSending clock [c] s), snd (queueLogForSending clock [c] s))"
  by (cases s) (simp add: on_data_def Let_def case_prod_beta)

lemma round_step:
  assumes "n < 1000"
  shows "snd (run seconds_clock [Data ''x\<newline>'', Settled accepted] (after_appends n)) = after_appends (Suc n)"
proof -
  have slot: "\<not> seconds_clock (Suc (3 * n)) - (if n = 0 then 0 else seconds_clock (3 * n - 1)) < SEND_INTERVAL_MS"
    by (simp add: seconds_clock_def SEND_INTERVAL_MS_def)
  have win: "seconds_clock (Suc (Suc (Suc (3 * n)))) < seconds_clock 0 + day_ms"
    using assms by (simp add: seconds_clock_def day_ms_def)
  show ?thesis
    using slot win assms
    by (simp add: after_appends_def step_def on_data_line queueLogForSending_def enqueue_def
        MAX_QUEUE_SIZE_def processLogQueue_def Date_now_def Let_def sendLog_begin_def
        MAX_LOGS_PER_DAY_def accepted_def sendLog_settle_def case_prod_beta)
qed


lemma appends_Suc: "appends (Suc n) = appends n @ [Data ''x\<newline>'', Settled accepted]"
  by (simp add: appends_def flip: replicate_append_same)

lemma initial_seconds: "initial seconds_clock = after_appends 0"
  by (simp add: initial_def after_appends_def)

lemma run_appends:
  "n \<le> 1000 \<Longrightarrow> snd (run seconds_clock (appends n) (initial seconds_clock)) = after_appends n"
proof (induction n)
  case 0
  show ?case by (simp add: appends_def initial_seconds)
next
  case (Suc n)
  then have "n < 1000" and "snd (run seconds_clock (appends n) (initial seconds_clock)) = after_appends n"
    by simp_all
  then show ?case
    using round_step [of n] by (simp only: appends_Suc run_append snd_conv)
qed

lemmas pipeline_unfold =
  step_def on_data_line queueLogForSending_def enqueue_def MAX_QUEUE_SIZE_def processLogQueue_def
  Date_now_def Let_def sendLog_begin_def MAX_LOGS_PER_DAY_def accepted_def sendLog_settle_def
  case_prod_beta SEND_INTERVAL_MS_def seconds_clock_def day_ms_def hour_ms_def

text \<open>
  Claim C8 does not hold of the code. The counter is compared with the limit when a line
  is dispatched and incremented only when the response has arrived, so a dispatch admitted
  while another request is still in flight is not counted against it. After 999
  acknowledged appends, two lines are dispatched three seconds apart, both before either
  response arrives: both requests are sent while the counter still reads 999. Both are
  acknowledged, and the counter stands at 1001 within the same daily window, above
  \<open>MAX_LOGS_PER_DAY\<close>.
\<close>

theorem daily_count_overshoots:
  "dailyLogCount (snd (run seconds_clock
      (appends 999 @ [Data ''y\<newline>'', Data ''z\<newline>'', Settled accepted, Settled accepted])
      (initial seconds_clock))) = 1001 \<and>
   dailyResetTime (snd (run seconds_clock
      (appends 999 @ [Data ''y\<newline>'', Data ''z\<newline>'', Settled accepted, Settled accepted])
      (initial seconds_clock))) = dailyResetTime (initial seconds_clock) \<and>
   MAX_LOGS_PER_DAY = 1000 \<and>
   snd (run seconds_clock (appends 999) (initial seconds_clock)) = after_appends 999 \<and>
   posts (fst (run seconds_clock [Data ''y\<newline>'', Data ''z\<newline>''] (after_appends 999))) = [''y'', ''z''] \<and>
   dailyLogCount (snd (run seconds_clock [Data ''y\<newline>'', Data ''z\<newline>''] (after_appends 999))) = 999"
proof -
  have start: "snd (run seconds_clock (appends 999) (initial seconds_clock)) = after_appends 999"
    by (rule run_appends) simp
  have flight: "posts (fst (run seconds_clock [Data ''y\<newline>'', Data ''z\<newline>''] (after_appends 999))) = [''y'', ''z''] \<and>
     dailyLogCount (snd (run seconds_clock [Data ''y\<newline>'', Data ''z\<newline>''] (after_appends 999))) = 999"
    by (simp add: after_appends_def pipeline_unfold)
  have "snd (run seconds_clock [Data ''y\<newline>'', Data ''z\<newline>'', Settled accepted, Settled accepted]
          (after_appends 999)) =
        (after_appends 999)\<lparr>lastSentTime := seconds_clock 3002, clock_reads := 3004, dailyLogCount := 1001\<rparr>"
    by (simp add: after_appends_def pipeline_unfold)
  then have fin: "snd (run seconds_clock
      (appends 999 @ [Data ''y\<newline>'', Data ''z\<newline>'', Settled accepted, Settled accepted])
      (initial seconds_clock)) =
        (after_appends 999)\<lparr>lastSentTime := seconds_clock 3002, clock_reads := 3004, dailyLogCount := 1001\<rparr>"
    by (simp only: run_append snd_conv start)
  have "dailyLogCount ((after_appends 999)\<lparr>lastSentTime := seconds_clock 3002, clock_reads := 3004,
          dailyLogCount := 1001\<rparr>) = 1001"
    and "dailyResetTime ((after_appends 999)\<lparr>lastSentTime := seconds_clock 3002, clock_reads := 3004,
          dailyLogCount := 1001\<rparr>) = dailyResetTime (initial seconds_clock)"
    and "MAX_LOGS_PER_DAY = 1000"
    by (simp_all add: after_appends_def initial_def MAX_LOGS_PER_DAY_def)
  with start flight show ?thesis unfolding fin by blast
qed

text \<open>
  Claim C9 does not hold of the code. The message is guarded by \<open>hoursSinceReset % 1 === 0\<close>,
  which holds of every integer (\<open>smod_one\<close>), so each refused dispatch logs it. After 1000
  acknowledged appends, two further lines three seconds apart are both dispatched and
  refused, no request is sent, and the message is logged twice: once per rejected item.
\<close>

theorem refusal_logged_every_time:
  "snd (run seconds_clock (appends 1000) (initial seconds_clock)) = after_appends 1000 \<and>
   dailyLogCount (after_appends 1000) = MAX_LOGS_PER_DAY \<and>
   dispatched (fst (run seconds_clock [Data ''y\<newline>'', Data ''z\<newline>''] (after_appends 1000))) = [''y'', ''z''] \<and>
   posts (fst (run seconds_clock [Data ''y\<newline>'', Data ''z\<newline>''] (after_appends 1000))) = [] \<and>
   errors (fst (run seconds_clock [Data ''y\<newline>'', Data ''z\<newline>''] (after_appends 1000))) =
     [limit_reached_text, limit_reached_text]"
proof -
  have start: "snd (run seconds_clock (appends 1000) (initial seconds_clock)) = after_appends 1000"
    by (rule run_appends) simp
  have "fst (run seconds_clock [Data ''y\<newline>'', Data ''z\<newline>''] (after_appends 1000)) =
      [Console_log ''y'', Dispatched (seconds_clock 3002) ''y'', Console_error limit_reached_text,
       Console_log ''z'', Dispatched (seconds_clock 3005) ''z'', Console_error limit_reached_text]"
    by (simp add: after_appends_def pipeline_unfold)
  then show ?thesis
    by (simp add: start) (simp add: after_appends_def MAX_LOGS_PER_DAY_def)
qed


subsection \<open>The daily quota\<close>

lemma sendLog_settle_accepted:
  "sendLog_settle clock accepted s =
     (True, if serverAvailable s then [] else [Console_log reconnected_text],
      s\<lparr>dailyLogCount := dailyLogCount s + 1, serverAvailable := True\<rparr>)"
  by (simp add: accepted_def sendLog_settle_ok)

text \<open>
  Claim C4. Let the counter stand at \<open>MAX_LOGS_PER_DAY = 1000\<close>, as it does after exactly
  1000 acknowledged appends (\<open>run_appends\<close>). While the clock stays before
  \<open>dailyResetTime\<close>, no run of the service issues a request, so no call of \<open>estimateGas\<close>
  or \<open>send\<close> reaches the ledger client; a single call of \<open>sendLogToBlockchain\<close> returns
  \<open>false\<close> without a request and leaves the counter as it is. Once the clock has reached
  \<open>dailyResetTime\<close>, a call with a non-blank line resets the counter to 0, opens a window
  of 24 hours, and sends the request; when that is acknowledged the call yields \<open>true\<close>
  and the counter is 1.
\<close>

theorem daily_quota:
  "dailyLogCount s = MAX_LOGS_PER_DAY \<Longrightarrow>
   MAX_LOGS_PER_DAY = 1000 \<and> day_ms = 86400000 \<and>
   ((\<forall>k. clock k < dailyResetTime s) \<longrightarrow>
      posts (fst (run clock evs s)) = [] \<and>
      ledger_calls_of estimateGas send (fst (run clock evs s)) = []) \<and>
   (clock (clock_reads s) < dailyResetTime s \<longrightarrow>
      fst (sendLog_begin clock msg s) = Resolved (Some False) \<and>
      posts (fst (snd (sendLog_begin clock msg s))) = [] \<and>
      ledger_calls_of estimateGas send (fst (snd (sendLog_begin clock msg s))) = [] \<and>
      dailyLogCount (snd (snd (sendLog_begin clock msg s))) = MAX_LOGS_PER_DAY) \<and>
   (dailyResetTime s \<le> clock (clock_reads s) \<and> \<not> isStopped s \<and> trim msg \<noteq> [] \<longrightarrow>
      fst (sendLog_begin clock msg s) = Awaiting_fetch \<and>
      fst (snd (sendLog_begin clock msg s)) = [Fetch_post (trim msg)] \<and>
      dailyLogCount (snd (snd (sendLog_begin clock msg s))) = 0 \<and>
      dailyResetTime (snd (snd (sendLog_begin clock msg s))) = clock (clock_reads s) + day_ms \<and>
      fst (sendLog_settle clock accepted (snd (snd (sendLog_begin clock msg s)))) = True \<and>
      dailyLogCount (snd (snd (sendLog_settle clock accepted (snd (snd (sendLog_begin clock msg s)))))) = 1)"
proof -
  assume full: "dailyLogCount s = MAX_LOGS_PER_DAY"
  have a: "posts (fst (run clock evs s)) = [] \<and>
      ledger_calls_of estimateGas send (fst (run clock evs s)) = []" if "\<forall>k. clock k < dailyResetTime s"
  proof -
    from full have "exhausted (dailyResetTime s) s" by (simp add: exhausted_def)
    from run_exhausted [OF that this, of evs] show ?thesis
      by (simp add: ledger_calls_of_no_posts)
  qed
  have b: "fst (sendLog_begin clock msg s) = Resolved (Some False) \<and>
      posts (fst (snd (sendLog_begin clock msg s))) = [] \<and>
      ledger_calls_of estimateGas send (fst (snd (sendLog_begin clock msg s))) = [] \<and>
      dailyLogCount (snd (snd (sendLog_begin clock msg s))) = MAX_LOGS_PER_DAY"
    if "clock (clock_reads s) < dailyResetTime s"
    using that full
    by (cases "isStopped s") (simp_all add: sendLog_begin_stopped sendLog_begin_refused)
  have c: "fst (sendLog_begin clock msg s) = Awaiting_fetch \<and>
      fst (snd (sendLog_begin clock msg s)) = [Fetch_post (trim msg)] \<and>
      dailyLogCount (snd (snd (sendLog_begin clock msg s))) = 0 \<and>
      dailyResetTime (snd (snd (sendLog_begin clock msg s))) = clock (clock_reads s) + day_ms \<and>
      fst (sendLog_settle clock accepted (snd (snd (sendLog_begin clock msg s)))) = True \<and>
      dailyLogCount (snd (snd (sendLog_settle clock accepted (snd (snd (sendLog_begin clock msg s)))))) = 1"
    if "dailyResetTime s \<le> clock (clock_reads s)" "\<not> isStopped s" "trim msg \<noteq> []"
  proof -
    from that(3) have "msg \<noteq> []" by (auto simp: trim_def)
    with that show ?thesis
      by (simp add: sendLog_begin_reset [where clock = clock and s = s, OF that(2,1)]
          sendLog_settle_accepted)
  qed
  from a b c show ?thesis by (simp add: MAX_LOGS_PER_DAY_def day_ms_def)
qed

lemma within_window: "\<forall>k. within_window_clock k < dailyResetTime (after_appends 1000)"
  by (simp add: within_window_clock_def after_appends_def day_ms_def min_def)

theorem daily_quota_witness:
  "dailyLogCount (after_appends 1000) = MAX_LOGS_PER_DAY \<and>
   posts (fst (run within_window_clock [Data ''y\<newline>'', Timer, Data ''z\<newline>''] (after_appends 1000))) = [] \<and>
   fst (sendLog_begin seconds_clock ''y'' (after_appends 1000)) = Resolved (Some False) \<and>
   posts (fst (snd (sendLog_begin seconds_clock ''y'' (after_appends 1000)))) = [] \<and>
   fst (snd (sendLog_begin next_day_clock ''y'' (after_appends 1000))) = [Fetch_post ''y''] \<and>
   dailyLogCount (snd (snd (sendLog_settle next_day_clock accepted
      (snd (snd (sendLog_begin next_day_clock ''y'' (after_appends 1000))))))) = 1"
proof -
  have full: "dailyLogCount (after_appends 1000) = MAX_LOGS_PER_DAY"
    by (simp add: after_appends_def MAX_LOGS_PER_DAY_def)
  have now: "seconds_clock (clock_reads (after_appends 1000)) < dailyResetTime (after_appends 1000)"
    by (simp add: after_appends_def seconds_clock_def day_ms_def)
  have later: "dailyResetTime (after_appends 1000) \<le> next_day_clock (clock_reads (after_appends 1000))
      \<and> \<not> isStopped (after_appends 1000) \<and> trim ''y'' \<noteq> []"
    by (simp add: after_appends_def next_day_clock_def seconds_clock_def day_ms_def hour_ms_def)
  from daily_quota [OF full, of within_window_clock "[Data ''y\<newline>'', Timer, Data ''z\<newline>'']"]
    within_window
  have "posts (fst (run within_window_clock [Data ''y\<newline>'', Timer, Data ''z\<newline>''] (after_appends 1000))) = []"
    by blast
  moreover from daily_quota [OF full, of seconds_clock _ _ _ "''y''"] now
  have "fst (sendLog_begin seconds_clock ''y'' (after_appends 1000)) = Resolved (Some False) \<and>
   posts (fst (snd (sendLog_begin seconds_clock ''y'' (after_appends 1000)))) = []"
    by blast
  moreover from daily_quota [OF full, of next_day_clock _ _ _ "''y''"] later
  have "fst (snd (sendLog_begin next_day_clock ''y'' (after_appends 1000))) = [Fetch_post (trim ''y'')] \<and>
   dailyLogCount (snd (snd (sendLog_settle next_day_clock accepted
      (snd (snd (sendLog_begin next_day_clock ''y'' (after_appends 1000))))))) = 1"
    by blast
  ultimately show ?thesis using full by simp
qed


subsection \<open>The bounded queue\<close>

lemma enqueue_full:
  "length (logQueue s) = MAX_QUEUE_SIZE \<Longrightarrow> logQueue (enqueue msg s) = tl (logQueue s) @ [msg]"
  by (simp add: enqueue_def Let_def)

lemma enqueue_reads: "clock_reads (enqueue msg s) = clock_reads s"
  by (simp add: enqueue_def Let_def)

lemma processLogQueue_closed:
  "logQueue s \<noteq> [] \<Longrightarrow>
   (if clock (clock_reads s) - lastSentTime s < SEND_INTERVAL_MS
    then logQueue (snd (processLogQueue clock s)) = logQueue s \<and>
         dispatched (fst (processLogQueue clock s)) = []
    else logQueue (snd (processLogQueue clock s)) = tl (logQueue s) \<and>
         dispatched (fst (processLogQueue clock s)) = [hd (logQueue s)])"
proof (cases "clock (clock_reads s) - lastSentTime s < SEND_INTERVAL_MS")
  case True
  then show ?thesis by (simp add: processLogQueue_wait)
next
  case False
  assume "logQueue s \<noteq> []"
  then obtain m rest where q: "logQueue s = m # rest" by (cases "logQueue s") auto
  from False show ?thesis
    by (simp add: processLogQueue_dispatch [where clock = clock and s = s, OF False q] Let_def q
        sendLog_begin_effects sendLog_begin_queue)
qed

text \<open>
  Claim C5. \<open>MAX_QUEUE_SIZE\<close> is 50. After any run from the initial state the queue holds
  at most 50 lines, and so it does after each \<open>push\<close> (\<open>enqueue\<close>) and each call of
  \<open>queueLogForSending\<close> from a state in which it did. When a line arrives while the queue
  holds 50 lines, the head of the queue, its oldest line, is removed and the new line is
  appended at the end; \<open>processLogQueue\<close> then either waits, or dispatches what is now the
  head, the second oldest line. The new line is in the queue in both cases. (A line is
  turned away only once the service has been stopped, and then the queue is empty: in a
  run from the initial state a full queue belongs to a service that is not stopped,
  \<open>full_not_stopped\<close>.)
\<close>

theorem queue_bounded_drop_oldest:
  "MAX_QUEUE_SIZE = 50 \<and>
   length (logQueue (snd (run clock evs (initial clock)))) \<le> MAX_QUEUE_SIZE \<and>
   (length (logQueue s) \<le> MAX_QUEUE_SIZE \<longrightarrow>
      length (logQueue (enqueue msg s)) \<le> MAX_QUEUE_SIZE \<and>
      length (logQueue (snd (queueLogForSending clock msg s))) \<le> MAX_QUEUE_SIZE \<and>
      length (logQueue (snd (run clock evs s))) \<le> MAX_QUEUE_SIZE) \<and>
   (length (logQueue s) = MAX_QUEUE_SIZE \<and> \<not> isStopped s \<longrightarrow>
      logQueue (enqueue msg s) = tl (logQueue s) @ [msg] \<and>
      (if clock (clock_reads s) - lastSentTime s < SEND_INTERVAL_MS
       then logQueue (snd (queueLogForSending clock msg s)) = tl (logQueue s) @ [msg] \<and>
            dispatched (fst (queueLogForSending clock msg s)) = []
       else logQueue (snd (queueLogForSending clock msg s)) = tl (tl (logQueue s)) @ [msg] \<and>
            dispatched (fst (queueLogForSending clock msg s)) = [logQueue s ! 1]))"
proof -
  have "length (logQueue (initial clock)) \<le> MAX_QUEUE_SIZE" by (simp add: initial_def)
  then have a: "length (logQueue (snd (run clock evs (initial clock)))) \<le> MAX_QUEUE_SIZE"
    by (rule run_bound)
  have b: "length (logQueue (enqueue msg s)) \<le> MAX_QUEUE_SIZE \<and>
      length (logQueue (snd (queueLogForSending clock msg s))) \<le> MAX_QUEUE_SIZE \<and>
      length (logQueue (snd (run clock evs s))) \<le> MAX_QUEUE_SIZE"
    if "length (logQueue s) \<le> MAX_QUEUE_SIZE"
    using that by (simp add: enqueue_bound queueLogForSending_bound run_bound)
  have c: "logQueue (enqueue msg s) = tl (logQueue s) @ [msg] \<and>
      (if clock (clock_reads s) - lastSentTime s < SEND_INTERVAL_MS
       then logQueue (snd (queueLogForSending clock msg s)) = tl (logQueue s) @ [msg] \<and>
            dispatched (fst (queueLogForSending clock msg s)) = []
       else logQueue (snd (queueLogForSending clock msg s)) = tl (tl (logQueue s)) @ [msg] \<and>
            dispatched (fst (queueLogForSending clock msg s)) = [logQueue s ! 1])"
    if full: "length (logQueue s) = MAX_QUEUE_SIZE" and run: "\<not> isStopped s"
  proof -
    from full obtain x y rest where q: "logQueue s = x # y # rest"
      by (cases "logQueue s"; cases "tl (logQueue s)") (auto simp: MAX_QUEUE_SIZE_def)
    note e = enqueue_full [OF full, of msg]
    from e q have ne: "logQueue (enqueue msg s) \<noteq> []" by simp
    from processLogQueue_closed [OF ne, of clock] run show ?thesis
      by (simp add: queueLogForSending_def e q enqueue_reads enqueue_lastSent)
  qed
  from a b c show ?thesis by (simp add: MAX_QUEUE_SIZE_def)
qed


theorem queue_bounded_drop_oldest_witness:
  "length (logQueue backlog) = MAX_QUEUE_SIZE \<and> \<not> isStopped backlog \<and>
   logQueue (enqueue ''new'' backlog) = tl full_queue @ [''new''] \<and>
   logQueue (snd (queueLogForSending millis_clock ''new'' backlog)) = tl full_queue @ [''new''] \<and>
   length (logQueue (snd (run millis_clock [Data ''new\<newline>''] backlog))) \<le> MAX_QUEUE_SIZE"
proof -
  have h: "length (logQueue backlog) = MAX_QUEUE_SIZE \<and> \<not> isStopped backlog"
    by (simp add: backlog_def full_queue_def initial_def MAX_QUEUE_SIZE_def)
  have q: "logQueue backlog = full_queue" by (simp add: backlog_def)
  have slot: "millis_clock (clock_reads backlog) - lastSentTime backlog < SEND_INTERVAL_MS"
    by (simp add: backlog_def initial_def millis_clock_def SEND_INTERVAL_MS_def)
  from queue_bounded_drop_oldest [of millis_clock "[Data ''new\<newline>'']" backlog "''new''"] h slot
  show ?thesis by (simp add: q)
qed

subsection \<open>The send interval\<close>

lemma sendLog_begin_posts: "length (posts (fst (snd (sendLog_begin clock msg s)))) \<le> 1"
  by (simp add: sendLog_begin_def Date_now_def Let_def)

lemma processLogQueue_posts:
  "length (posts (fst (processLogQueue clock s))) \<le> length (dispatch_times (fst (processLogQueue clock s)))"
proof (cases "clock (clock_reads s) - lastSentTime s < SEND_INTERVAL_MS")
  case True
  then show ?thesis by (simp add: processLogQueue_wait)
next
  case False
  show ?thesis
  proof (cases "logQueue s")
    case Nil
    with False show ?thesis by (simp add: processLogQueue_idle)
  next
    case (Cons m rest)
    show ?thesis
      by (simp add: processLogQueue_dispatch [where clock = clock and s = s, OF False Cons] Let_def
          sendLog_begin_effects sendLog_begin_posts [unfolded One_nat_def])
  qed
qed

lemma queue_lines_posts:
  "length (posts (fst (queue_lines clock lines s))) \<le> length (dispatch_times (fst (queue_lines clock lines s)))"
proof (induction lines arbitrary: s)
  case Nil
  show ?case by simp
next
  case (Cons line lines)
  show ?case
  proof (cases "trim line = []")
    case True
    with Cons show ?thesis by simp
  next
    case False
    have "length (posts (fst (queueLogForSending clock line s)))
        \<le> length (dispatch_times (fst (queueLogForSending clock line s)))"
      using processLogQueue_posts [of clock "enqueue line s"] by (simp add: queueLogForSending_def)
    with Cons.IH [of "snd (queueLogForSending clock line s)"] False show ?thesis
      by (simp add: queue_lines_Cons del: queue_lines.simps)
  qed
qed

lemma step_posts:
  "length (posts (fst (step clock e s))) \<le> length (dispatch_times (fst (step clock e s)))"
proof (cases e)
  case (Data chunk)
  with queue_lines_posts show ?thesis by (simp add: step_def on_data_def Let_def)
next
  case Timer
  with processLogQueue_posts show ?thesis by (simp add: step_def)
next
  case (Settled outcome)
  then show ?thesis by (simp add: step_def case_prod_beta sendLog_settle_effects)
next
  case (Signal sig)
  then show ?thesis by (simp add: step_def on_signal_def)
qed

lemma run_posts:
  "length (posts (fst (run clock evs s))) \<le> length (dispatch_times (fst (run clock evs s)))"
proof (induction evs arbitrary: s)
  case Nil
  show ?case by simp
next
  case (Cons e evs)
  from Cons.IH [of "snd (step clock e s)"] step_posts [of clock e s]
  show ?case by (simp add: run_Cons del: run.simps)
qed

text \<open>
  Claim C6. On a clock that never runs backwards, in any run from any state (any pattern
  of chunks, timers, responses and signals, whatever the length of the queue), any two
  dispatches are at least \<open>SEND_INTERVAL_MS = 1000\<close> milliseconds apart, and there are no
  more requests than dispatches, each request being sent within its dispatch.
\<close>

theorem dispatches_paced:
  "monotone_clock clock \<Longrightarrow>
   SEND_INTERVAL_MS = 1000 \<and>
   sorted_wrt (\<lambda>t t'. t + SEND_INTERVAL_MS \<le> t') (dispatch_times (fst (run clock evs s))) \<and>
   length (posts (fst (run clock evs s))) \<le> length (dispatch_times (fst (run clock evs s)))"
  using run_paced [of clock s evs] run_posts [of clock evs s]
  by (simp add: paced_def SEND_INTERVAL_MS_def)

lemma monotone_millis: "monotone_clock millis_clock"
  by (simp add: monotone_clock_def millis_clock_def)

theorem dispatches_paced_witness:
  "monotone_clock millis_clock \<and>
   dispatched (fst (run millis_clock [Data ''x\<newline>y\<newline>z\<newline>'', Timer] (initial millis_clock))) = [''x''] \<and>
   sorted_wrt (\<lambda>t t'. t + SEND_INTERVAL_MS \<le> t')
     (dispatch_times (fst (run millis_clock [Data ''x\<newline>y\<newline>z\<newline>'', Timer] (initial millis_clock))))"
proof -
  have "dispatched (fst (run millis_clock [Data ''x\<newline>y\<newline>z\<newline>'', Timer] (initial millis_clock))) = [''x'']"
    by (simp add: initial_def on_data_def step_def queueLogForSending_def enqueue_def MAX_QUEUE_SIZE_def
        processLogQueue_def Date_now_def Let_def sendLog_begin_def MAX_LOGS_PER_DAY_def case_prod_beta
        SEND_INTERVAL_MS_def millis_clock_def day_ms_def)
  with dispatches_paced [OF monotone_millis, of "[Data ''x\<newline>y\<newline>z\<newline>'', Timer]" "initial millis_clock"]
    monotone_millis
  show ?thesis by simp
qed

subsection \<open>The availability tracker\<close>

lemma step_failure:
  "server_unreachable outcome \<Longrightarrow>
   step clock (Settled outcome) s =
     (if serverAvailable s \<or> clock (clock_reads s) - lastErrorTime s > ERROR_THROTTLE_MS
      then ([Console_error not_available_text],
            s\<lparr>clock_reads := Suc (clock_reads s), serverAvailable := False,
              lastErrorTime := clock (clock_reads s)\<rparr>)
      else ([], s\<lparr>clock_reads := Suc (clock_reads s)\<rparr>))"
  by (cases outcome)
    (simp_all add: server_unreachable_def step_def sendLog_settle_def send_catch_def Date_now_def Let_def)

lemma step_success:
  "step clock (Settled (Response True (Json_parsed r))) s =
     (if serverAvailable s then [] else [Console_log reconnected_text],
      s\<lparr>dailyLogCount := dailyLogCount s + 1, serverAvailable := True\<rparr>)"
  by (simp add: step_def sendLog_settle_ok)

lemma unavailable_notices_append [simp]:
  "unavailable_notices (a @ b) = unavailable_notices a @ unavailable_notices b"
  by (simp add: unavailable_notices_def)

lemma unavailable_notices_simps:
  "unavailable_notices [] = []"
  "unavailable_notices (Console_log text # out) = unavailable_notices out"
  "unavailable_notices (Fetch_post body # out) = unavailable_notices out"
  "unavailable_notices (Set_timeout d # out) = unavailable_notices out"
  "unavailable_notices (Dispatched t m # out) = unavailable_notices out"
  "unavailable_notices (Console_error text # out) =
     (if text = not_available_text then text # unavailable_notices out else unavailable_notices out)"
  by (simp_all add: unavailable_notices_def)

lemma texts_differ: "limit_reached_text \<noteq> not_available_text"
  by (simp add: limit_reached_text_def not_available_text_def)

text \<open>What the handlers of the queue leave alone.\<close>

lemma sendLog_begin_tracker:
  "serverAvailable (snd (snd (sendLog_begin clock msg s))) = serverAvailable s"
  "lastErrorTime (snd (snd (sendLog_begin clock msg s))) = lastErrorTime s"
  "clock_reads s \<le> clock_reads (snd (snd (sendLog_begin clock msg s)))"
  "unavailable_notices (fst (snd (sendLog_begin clock msg s))) = []"
  by (simp_all add: sendLog_begin_def Date_now_def Let_def unavailable_notices_simps texts_differ)

lemma processLogQueue_tracker:
  "serverAvailable (snd (processLogQueue clock s)) = serverAvailable s"
  "lastErrorTime (snd (processLogQueue clock s)) = lastErrorTime s"
  "clock_reads s \<le> clock_reads (snd (processLogQueue clock s))"
  "unavailable_notices (fst (processLogQueue clock s)) = []"
proof -
  have "serverAvailable (snd (processLogQueue clock s)) = serverAvailable s \<and>
    lastErrorTime (snd (processLogQueue clock s)) = lastErrorTime s \<and>
    clock_reads s \<le> clock_reads (snd (processLogQueue clock s)) \<and>
    unavailable_notices (fst (processLogQueue clock s)) = []"
  proof (cases "clock (clock_reads s) - lastSentTime s < SEND_INTERVAL_MS")
    case True
    then show ?thesis by (simp add: processLogQueue_wait unavailable_notices_simps)
  next
    case False
    show ?thesis
    proof (cases "logQueue s")
      case Nil
      with False show ?thesis by (simp add: processLogQueue_idle unavailable_notices_simps)
    next
      case (Cons m rest)
      let ?s4 = "s\<lparr>clock_reads := Suc (Suc (clock_reads s)), logQueue := rest,
                  lastSentTime := clock (Suc (clock_reads s))\<rparr>"
      from sendLog_begin_tracker [where clock = clock and msg = m and s = ?s4]
      show ?thesis
        by (simp add: processLogQueue_dispatch [where clock = clock and s = s, OF False Cons] Let_def
            unavailable_notices_simps)
    qed
  qed
  then show "serverAvailable (snd (processLogQueue clock s)) = serverAvailable s"
    "lastErrorTime (snd (processLogQueue clock s)) = lastErrorTime s"
    "clock_reads s \<le> clock_reads (snd (processLogQueue clock s))"
    "unavailable_notices (fst (processLogQueue clock s)) = []"
    by simp_all
qed

lemma queueLogForSending_tracker:
  "serverAvailable (snd (queueLogForSending clock msg s)) = serverAvailable s"
  "lastErrorTime (snd (queueLogForSending clock msg s)) = lastErrorTime s"
  "clock_reads s \<le> clock_reads (snd (queueLogForSending clock msg s))"
  "unavailable_notices (fst (queueLogForSending clock msg s)) = []"
proof -
  have e: "serverAvailable (enqueue msg s) = serverAvailable s"
    "lastErrorTime (enqueue msg s) = lastErrorTime s"
    by (simp_all add: enqueue_def Let_def)
  have "clock_reads (enqueue msg s) \<le> clock_reads (snd (processLogQueue clock (enqueue msg s)))"
    by (rule processLogQueue_tracker)
  then have r: "clock_reads s \<le> clock_reads (snd (processLogQueue clock (enqueue msg s)))"
    by (simp add: enqueue_reads)
  show "serverAvailable (snd (queueLogForSending clock msg s)) = serverAvailable s"
    "lastErrorTime (snd (queueLogForSending clock msg s)) = lastErrorTime s"
    "unavailable_notices (fst (queueLogForSending clock msg s)) = []"
    by (simp_all add: queueLogForSending_def processLogQueue_tracker e unavailable_notices_simps)
  show "clock_reads s \<le> clock_reads (snd (queueLogForSending clock msg s))"
    using r by (simp add: queueLogForSending_def)
qed

lemma queue_lines_tracker:
  "serverAvailable (snd (queue_lines clock lines s)) = serverAvailable s \<and>
   lastErrorTime (snd (queue_lines clock lines s)) = lastErrorTime s \<and>
   clock_reads s \<le> clock_reads (snd (queue_lines clock lines s)) \<and>
   unavailable_notices (fst (queue_lines clock lines s)) = []"
proof (induction lines arbitrary: s)
  case Nil
  show ?case by (simp add: unavailable_notices_simps)
next
  case (Cons line lines)
  show ?case
  proof (cases "trim line = []")
    case True
    with Cons show ?thesis by simp
  next
    case False
    note q = queueLogForSending_tracker [where clock = clock and msg = line and s = s]
    from Cons [where s = "snd (queueLogForSending clock line s)"] q False show ?thesis
      by (simp add: queue_lines_Cons unavailable_notices_simps del: queue_lines.simps)
  qed
qed

lemma step_tracker:
  assumes "\<not> refused e" and "outage_event e"
  shows "serverAvailable (snd (step clock e s)) = serverAvailable s \<and>
   lastErrorTime (snd (step clock e s)) = lastErrorTime s \<and>
   unavailable_notices (fst (step clock e s)) = []"
proof (cases e)
  case (Data chunk)
  from queue_lines_tracker [where clock = clock and s = "s\<lparr>logBuffer := last (split_newline (logBuffer s @ chunk))\<rparr>"]
  show ?thesis using Data by (simp add: step_def on_data_def Let_def)
next
  case Timer
  with processLogQueue_tracker [where clock = clock and s = s] show ?thesis by (simp add: step_def)
next
  case (Settled outcome)
  with assms show ?thesis by (simp add: refused_def outage_event_def)
next
  case (Signal sig)
  then show ?thesis by (simp add: step_def on_signal_def unavailable_notices_simps)
qed

lemma step_reads: "clock_reads s \<le> clock_reads (snd (step clock e s))"
proof (cases e)
  case (Data chunk)
  from queue_lines_tracker [where clock = clock and s = "s\<lparr>logBuffer := last (split_newline (logBuffer s @ chunk))\<rparr>"]
  show ?thesis using Data by (simp add: step_def on_data_def Let_def)
next
  case Timer
  with processLogQueue_tracker [where clock = clock and s = s] show ?thesis by (simp add: step_def)
next
  case (Settled outcome)
  then show ?thesis
    by (simp add: step_def case_prod_beta sendLog_settle_def send_catch_def Date_now_def Let_def
        split: fetch_outcome.split json_outcome.split)
next
  case (Signal sig)
  then show ?thesis by (simp add: step_def on_signal_def)
qed

lemma run_reads: "clock_reads s \<le> clock_reads (snd (run clock evs s))"
proof (induction evs arbitrary: s)
  case Nil
  show ?case by simp
next
  case (Cons e evs)
  from step_reads [where s = s and clock = clock and e = e] Cons [where s = "snd (step clock e s)"]
  show ?case by (simp add: run_Cons del: run.simps)
qed

lemma readings_between_later:
  "readings_between clock r r' lo hi \<Longrightarrow> r \<le> r1 \<Longrightarrow> readings_between clock r1 r' lo hi"
  by (simp add: readings_between_def)

lemma readings_between_first:
  "readings_between clock r r' lo hi \<Longrightarrow> r < r' \<Longrightarrow> lo \<le> clock r \<and> clock r \<le> hi"
  by (simp add: readings_between_def)

text \<open>The readings of the rest of a run, and the reading of a refused request.\<close>

lemma readings_rest:
  assumes "readings_between clock (clock_reads s) (clock_reads (snd (run clock (e # evs) s))) lo hi"
  shows "readings_between clock (clock_reads (snd (step clock e s)))
           (clock_reads (snd (run clock evs (snd (step clock e s))))) lo hi"
  using assms step_reads [where s = s and clock = clock and e = e]
  by (simp add: run_Cons readings_between_later del: run.simps)

lemma readings_refused:
  assumes "readings_between clock (clock_reads s) (clock_reads (snd (run clock (e # evs) s))) lo hi"
    and "refused e"
  shows "lo \<le> clock (clock_reads s) \<and> clock (clock_reads s) \<le> hi"
proof -
  from assms(2) obtain outcome where e: "e = Settled outcome" and f: "server_unreachable outcome"
    by (cases e) (simp_all add: refused_def)
  have "clock_reads (snd (step clock e s)) = Suc (clock_reads s)"
    by (simp add: e step_failure [OF f])
  with run_reads [where s = "snd (step clock e s)" and clock = clock and evs = evs]
  have "clock_reads s < clock_reads (snd (run clock (e # evs) s))"
    by (simp add: run_Cons del: run.simps)
  with assms(1) show ?thesis by (rule readings_between_first)
qed

lemma refused_step:
  assumes "refused e"
  shows "step clock e s =
     (if serverAvailable s \<or> clock (clock_reads s) - lastErrorTime s > ERROR_THROTTLE_MS
      then ([Console_error not_available_text],
            s\<lparr>clock_reads := Suc (clock_reads s), serverAvailable := False,
              lastErrorTime := clock (clock_reads s)\<rparr>)
      else ([], s\<lparr>clock_reads := Suc (clock_reads s)\<rparr>))"
proof -
  from assms obtain outcome where e: "e = Settled outcome" and f: "server_unreachable outcome"
    by (cases e) (simp_all add: refused_def)
  show ?thesis unfolding e by (rule step_failure [OF f])
qed

lemma outage_quiet:
  "list_all outage_event evs \<Longrightarrow> \<not> serverAvailable s \<Longrightarrow> T \<le> lastErrorTime s \<Longrightarrow>
   readings_between clock (clock_reads s) (clock_reads (snd (run clock evs s))) T (T + ERROR_THROTTLE_MS) \<Longrightarrow>
   unavailable_notices (fst (run clock evs s)) = []"
proof (induction evs arbitrary: s)
  case Nil
  show ?case by (simp add: unavailable_notices_simps)
next
  case (Cons e evs)
  from Cons.prems(1) have oe: "outage_event e" and rest: "list_all outage_event evs" by simp_all
  note later = readings_rest [OF Cons.prems(4)]
  have "unavailable_notices (fst (step clock e s)) = [] \<and>
        \<not> serverAvailable (snd (step clock e s)) \<and> T \<le> lastErrorTime (snd (step clock e s))"
  proof (cases "refused e")
    case True
    from readings_refused [OF Cons.prems(4) True]
    have "clock (clock_reads s) \<le> T + ERROR_THROTTLE_MS" by simp
    with Cons.prems(2,3) show ?thesis
      by (simp add: refused_step [OF True] unavailable_notices_simps)
  next
    case False
    from step_tracker [OF False oe, where clock = clock and s = s] Cons.prems(2,3) show ?thesis by simp
  qed
  with Cons.IH [OF rest _ _ later] show ?case
    by (simp add: run_Cons del: run.simps)
qed

lemma outage_at_most_once:
  "list_all outage_event evs \<Longrightarrow>
   readings_between clock (clock_reads s) (clock_reads (snd (run clock evs s))) T (T + ERROR_THROTTLE_MS) \<Longrightarrow>
   length (unavailable_notices (fst (run clock evs s))) \<le> 1"
proof (induction evs arbitrary: s)
  case Nil
  show ?case by (simp add: unavailable_notices_simps)
next
  case (Cons e evs)
  from Cons.prems(1) have oe: "outage_event e" and rest: "list_all outage_event evs" by simp_all
  note later = readings_rest [OF Cons.prems(2)]
  show ?case
  proof (cases "refused e \<and> (serverAvailable s \<or> clock (clock_reads s) - lastErrorTime s > ERROR_THROTTLE_MS)")
    case True
    then have r: "refused e" by simp
    from readings_refused [OF Cons.prems(2) r] have "T \<le> clock (clock_reads s)" by simp
    with True have st: "unavailable_notices (fst (step clock e s)) = [not_available_text]"
      "\<not> serverAvailable (snd (step clock e s))" "T \<le> lastErrorTime (snd (step clock e s))"
      by (simp_all add: refused_step [OF r] unavailable_notices_simps)
    from outage_quiet [OF rest st(2,3) later] st(1) show ?thesis
      by (simp add: run_Cons del: run.simps)
  next
    case False
    have "unavailable_notices (fst (step clock e s)) = []"
    proof (cases "refused e")
      case True
      with False show ?thesis by (simp add: refused_step [OF True] unavailable_notices_simps)
    next
      case False
      from step_tracker [OF False oe, where clock = clock and s = s] show ?thesis by simp
    qed
    with Cons.IH [OF rest later] show ?thesis
      by (simp add: run_Cons del: run.simps)
  qed
qed

lemma outage_exactly_once:
  "list_all outage_event evs \<Longrightarrow> list_ex refused evs \<Longrightarrow> serverAvailable s \<Longrightarrow>
   readings_between clock (clock_reads s) (clock_reads (snd (run clock evs s))) T (T + ERROR_THROTTLE_MS) \<Longrightarrow>
   unavailable_notices (fst (run clock evs s)) = [not_available_text]"
proof (induction evs arbitrary: s)
  case Nil
  then show ?case by simp
next
  case (Cons e evs)
  from Cons.prems(1) have oe: "outage_event e" and rest: "list_all outage_event evs" by simp_all
  note later = readings_rest [OF Cons.prems(4)]
  show ?case
  proof (cases "refused e")
    case True
    from readings_refused [OF Cons.prems(4) True] have "T \<le> clock (clock_reads s)" by simp
    with Cons.prems(3) have st: "unavailable_notices (fst (step clock e s)) = [not_available_text]"
      "\<not> serverAvailable (snd (step clock e s))" "T \<le> lastErrorTime (snd (step clock e s))"
      by (simp_all add: refused_step [OF True] unavailable_notices_simps)
    from outage_quiet [OF rest st(2,3) later] st(1) show ?thesis
      by (simp add: run_Cons del: run.simps)
  next
    case False
    with Cons.prems(2) have ex: "list_ex refused evs" by simp
    from step_tracker [OF False oe, where clock = clock and s = s] Cons.prems(3)
    have st: "unavailable_notices (fst (step clock e s)) = []" "serverAvailable (snd (step clock e s))"
      by simp_all
    from Cons.IH [OF rest ex st(2) later] st(1) show ?thesis
      by (simp add: run_Cons del: run.simps)
  qed
qed

lemma refused_only_errors:
  "list_all refused evs \<Longrightarrow>
   errors (fst (run clock evs s)) = unavailable_notices (fst (run clock evs s))"
proof (induction evs arbitrary: s)
  case Nil
  show ?case by (simp add: unavailable_notices_simps)
next
  case (Cons e evs)
  from Cons.prems have r: "refused e" and rest: "list_all refused evs" by simp_all
  have "errors (fst (step clock e s)) = unavailable_notices (fst (step clock e s))"
    by (simp add: refused_step [OF r] unavailable_notices_simps)
  with Cons.IH [OF rest, where s = "snd (step clock e s)"] show ?case
    by (simp add: run_Cons del: run.simps)
qed

text \<open>Only an acknowledged request marks the server as available again.\<close>

lemma step_stays_unavailable:
  "\<not> acknowledged e \<Longrightarrow> \<not> serverAvailable s \<Longrightarrow> \<not> serverAvailable (snd (step clock e s))"
proof (cases e)
  case (Data chunk)
  from queue_lines_tracker [where clock = clock and s = "s\<lparr>logBuffer := last (split_newline (logBuffer s @ chunk))\<rparr>"]
  show "\<not> serverAvailable s \<Longrightarrow> ?thesis" using Data by (simp add: step_def on_data_def Let_def)
next
  case Timer
  with processLogQueue_tracker [where clock = clock and s = s] show "\<not> serverAvailable s \<Longrightarrow> ?thesis"
    by (simp add: step_def)
next
  case (Settled outcome)
  then show "\<not> acknowledged e \<Longrightarrow> \<not> serverAvailable s \<Longrightarrow> ?thesis"
    by (auto simp: acknowledged_def step_def case_prod_beta sendLog_settle_def send_catch_def
        Date_now_def Let_def split: fetch_outcome.splits json_outcome.splits if_splits)
next
  case (Signal sig)
  then show "\<not> serverAvailable s \<Longrightarrow> ?thesis" by (simp add: step_def on_signal_def)
qed

lemma run_stays_unavailable:
  "list_all (\<lambda>e. \<not> acknowledged e) evs \<Longrightarrow> \<not> serverAvailable s \<Longrightarrow>
   \<not> serverAvailable (snd (run clock evs s))"
proof (induction evs arbitrary: s)
  case Nil
  then show ?case by simp
next
  case (Cons e evs)
  from Cons.prems have "\<not> acknowledged e" and rest: "list_all (\<lambda>e. \<not> acknowledged e) evs"
    by simp_all
  from step_stays_unavailable [OF this(1) Cons.prems(2), where clock = clock]
  have "\<not> serverAvailable (snd (step clock e s))" .
  from Cons.IH [OF rest this] show ?case by (simp add: run_Cons del: run.simps)
qed

lemma unavailable_after_failure:
  assumes "server_unreachable outcome" and "list_all (\<lambda>e. \<not> acknowledged e) later"
  shows "\<not> serverAvailable (snd (run clock (before @ [Settled outcome] @ later) s))"
proof -
  have "\<not> serverAvailable (snd (step clock (Settled outcome) (snd (run clock before s))))"
    by (simp add: step_failure [OF assms(1)])
  from run_stays_unavailable [OF assms(2) this]
  show ?thesis by (simp add: run_append run_Cons del: run.simps)
qed


text \<open>
  Claim C7, as the code has it. \<open>ERROR_THROTTLE_MS\<close> is 5000. Take any run in which the
  API server stays unreachable: chunks, timers and signals in any order, among requests
  that fail because the server cannot be reached (\<open>fetch\<close> rejecting with \<open>ECONNREFUSED\<close>
  or \<open>fetch failed\<close>). If the readings of the clock made during the run lie within an
  interval of 5000 ms, the run logs the notification that the server is not available at
  most once; and exactly once if the server counted as available before and a request
  fails in the run. When the run consists of such failures only, three say, that
  notification is all it logs as an error. Whatever the timing, once a request has failed
  in this way, and whatever happens next short of an acknowledged request, the server
  counts as not available, and the first acknowledged request logs the recovery
  notification, exactly that, and marks the server available; the next acknowledged
  request logs nothing.
\<close>

theorem availability_notifications:
  "list_all outage_event evs \<Longrightarrow>
   ERROR_THROTTLE_MS = 5000 \<and>
   (readings_between clock (clock_reads s) (clock_reads (snd (run clock evs s))) T (T + ERROR_THROTTLE_MS) \<longrightarrow>
      length (unavailable_notices (fst (run clock evs s))) \<le> 1) \<and>
   (readings_between clock (clock_reads s) (clock_reads (snd (run clock evs s))) T (T + ERROR_THROTTLE_MS) \<and>
    serverAvailable s \<and> list_ex refused evs \<longrightarrow>
      unavailable_notices (fst (run clock evs s)) = [not_available_text]) \<and>
   (list_all refused evs \<longrightarrow>
      errors (fst (run clock evs s)) = unavailable_notices (fst (run clock evs s))) \<and>
   (server_unreachable outcome \<and> list_all (\<lambda>e. \<not> acknowledged e) later \<longrightarrow>
      \<not> serverAvailable (snd (run clock (before @ [Settled outcome] @ later) s)) \<and>
      fst (step clock (Settled (Response True (Json_parsed r)))
             (snd (run clock (before @ [Settled outcome] @ later) s))) = [Console_log reconnected_text] \<and>
      serverAvailable (snd (step clock (Settled (Response True (Json_parsed r)))
             (snd (run clock (before @ [Settled outcome] @ later) s)))) \<and>
      fst (step clock (Settled (Response True (Json_parsed r')))
             (snd (step clock (Settled (Response True (Json_parsed r)))
                (snd (run clock (before @ [Settled outcome] @ later) s))))) = [])"
proof -
  assume oe: "list_all outage_event evs"
  have t: "ERROR_THROTTLE_MS = 5000" by (simp add: ERROR_THROTTLE_MS_def)
  have a: "length (unavailable_notices (fst (run clock evs s))) \<le> 1"
    if "readings_between clock (clock_reads s) (clock_reads (snd (run clock evs s))) T (T + ERROR_THROTTLE_MS)"
    using oe that by (rule outage_at_most_once)
  have b: "unavailable_notices (fst (run clock evs s)) = [not_available_text]"
    if "readings_between clock (clock_reads s) (clock_reads (snd (run clock evs s))) T (T + ERROR_THROTTLE_MS)"
      "serverAvailable s" "list_ex refused evs"
    using oe that(3,2,1) by (rule outage_exactly_once)
  have c: "errors (fst (run clock evs s)) = unavailable_notices (fst (run clock evs s))"
    if "list_all refused evs"
    using that by (rule refused_only_errors)
  have d: "\<not> serverAvailable (snd (run clock (before @ [Settled outcome] @ later) s)) \<and>
      fst (step clock (Settled (Response True (Json_parsed r)))
             (snd (run clock (before @ [Settled outcome] @ later) s))) = [Console_log reconnected_text] \<and>
      serverAvailable (snd (step clock (Settled (Response True (Json_parsed r)))
             (snd (run clock (before @ [Settled outcome] @ later) s)))) \<and>
      fst (step clock (Settled (Response True (Json_parsed r')))
             (snd (step clock (Settled (Response True (Json_parsed r)))
                (snd (run clock (before @ [Settled outcome] @ later) s))))) = []"
    if "server_unreachable outcome" "list_all (\<lambda>e. \<not> acknowledged e) later"
    using unavailable_after_failure [OF that, where clock = clock and before = before and s = s]
    by (simp add: step_success)
  from t a b c d show ?thesis by blast
qed

lemma refused_connection_unreachable: "server_unreachable refused_connection"
  by (simp add: server_unreachable_def refused_connection_def)

lemma ledger_unreachable_answer:
  "ledger_unreachable =
     Response False (Json_parsed
       (Some ''Cannot connect to Ganache. Please make sure Ganache is running on port 7545.''))"
  by (simp add: ledger_unreachable_def add_log_def unreachable_estimateGas_def add_log_failure_def
      connection_error_def unreachable_error_def response_ok_def)

lemma outage_clock_window:
  "readings_between outage_clock r r' 1700000000000 (1700000000000 + ERROR_THROTTLE_MS)"
  by (simp add: readings_between_def outage_clock_def ERROR_THROTTLE_MS_def min_def)

theorem availability_notifications_witness:
  "list_all outage_event outage_run \<and> list_ex refused outage_run \<and>
   serverAvailable (initial outage_clock) \<and>
   readings_between outage_clock (clock_reads (initial outage_clock))
     (clock_reads (snd (run outage_clock outage_run (initial outage_clock))))
     1700000000000 (1700000000000 + ERROR_THROTTLE_MS) \<and>
   length (unavailable_notices (fst (run outage_clock outage_run (initial outage_clock)))) \<le> 1 \<and>
   unavailable_notices (fst (run outage_clock outage_run (initial outage_clock))) = [not_available_text] \<and>
   list_all refused [Settled refused_connection, Settled refused_connection, Settled refused_connection] \<and>
   errors (fst (run outage_clock
      [Settled refused_connection, Settled refused_connection, Settled refused_connection]
      (initial outage_clock))) = [not_available_text] \<and>
   server_unreachable refused_connection \<and>
   list_all (\<lambda>e. \<not> acknowledged e) [Settled ledger_unreachable, Timer] \<and>
   fst (step outage_clock (Settled accepted)
      (snd (run outage_clock (outage_run @ [Settled refused_connection] @ [Settled ledger_unreachable, Timer])
         (initial outage_clock)))) = [Console_log reconnected_text]"
proof -
  let ?three = "[Settled refused_connection, Settled refused_connection, Settled refused_connection]"
  have oe: "list_all outage_event outage_run"
    by (simp add: outage_run_def outage_event_def refused_connection_unreachable)
  have ex: "list_ex refused outage_run"
    by (simp add: outage_run_def refused_def refused_connection_unreachable)
  have av: "serverAvailable (initial outage_clock)" by (simp add: initial_def)
  note w = outage_clock_window [of "clock_reads (initial outage_clock)"
      "clock_reads (snd (run outage_clock outage_run (initial outage_clock)))"]
  have r3: "list_all refused ?three"
    by (simp add: refused_def refused_connection_unreachable)
  then have oe3: "list_all outage_event ?three"
    by (simp add: refused_def outage_event_def)
  have ex3: "list_ex refused ?three"
    by (simp add: refused_def refused_connection_unreachable)
  note w3 = outage_clock_window [of "clock_reads (initial outage_clock)"
      "clock_reads (snd (run outage_clock ?three (initial outage_clock)))"]
  have na: "list_all (\<lambda>e. \<not> acknowledged e) [Settled ledger_unreachable, Timer]"
    by (simp add: acknowledged_def ledger_unreachable_answer)
  note inst = availability_notifications [OF oe, where clock = outage_clock and s = "initial outage_clock"
      and T = 1700000000000 and outcome = refused_connection
      and later = "[Settled ledger_unreachable, Timer]" and before = outage_run
      and r = "Some ''Log entry added successfully''"]
  note inst3 = availability_notifications [OF oe3, where clock = outage_clock and s = "initial outage_clock"
      and T = 1700000000000]
  from inst w have one: "length (unavailable_notices (fst (run outage_clock outage_run (initial outage_clock)))) \<le> 1"
    by blast
  from inst w av ex
  have once: "unavailable_notices (fst (run outage_clock outage_run (initial outage_clock))) = [not_available_text]"
    by blast
  from inst3 w3 av ex3
  have "unavailable_notices (fst (run outage_clock ?three (initial outage_clock))) = [not_available_text]"
    by blast
  moreover from inst3 r3
  have "errors (fst (run outage_clock ?three (initial outage_clock))) =
      unavailable_notices (fst (run outage_clock ?three (initial outage_clock)))"
    by blast
  ultimately have three: "errors (fst (run outage_clock ?three (initial outage_clock))) = [not_available_text]"
    by simp
  from inst refused_connection_unreachable na
  have rec: "fst (step outage_clock (Settled accepted)
      (snd (run outage_clock (outage_run @ [Settled refused_connection] @ [Settled ledger_unreachable, Timer])
         (initial outage_clock)))) = [Console_log reconnected_text]"
    unfolding accepted_def by blast
  from oe ex av w one once r3 three refused_connection_unreachable na rec show ?thesis by blast
qed

text \<open>
  Claim C7 as stated fails when it is the ledger that cannot be reached, behind a server
  that can: the server answers each request with status 503, which the service takes as an
  API error. That leaves the server marked as available, so after three such answers the
  first acknowledged request logs no recovery notification; and such an answer followed
  one second later by a refused connection logs two errors within one second.
\<close>

theorem ledger_outage_unnoticed:
  "ledger_unreachable =
     Response False (Json_parsed
       (Some ''Cannot connect to Ganache. Please make sure Ganache is running on port 7545.'')) \<and>
   infos (fst (run seconds_clock
      [Settled ledger_unreachable, Settled ledger_unreachable, Settled ledger_unreachable, Settled accepted]
      (initial seconds_clock))) = [] \<and>
   errors (fst (run seconds_clock [Settled ledger_unreachable, Settled refused_connection]
      (initial seconds_clock))) =
     [''[ERROR] API error: Cannot connect to Ganache. Please make sure Ganache is running on port 7545.'',
      not_available_text]"
proof -
  have "infos (fst (run seconds_clock
      [Settled ledger_unreachable, Settled ledger_unreachable, Settled ledger_unreachable, Settled accepted]
      (initial seconds_clock))) = []"
    by (simp add: ledger_unreachable_answer accepted_def initial_def step_def sendLog_settle_def
        Date_now_def Let_def case_prod_beta seconds_clock_def ERROR_THROTTLE_MS_def)
  moreover have "errors (fst (run seconds_clock [Settled ledger_unreachable, Settled refused_connection]
      (initial seconds_clock))) =
     [''[ERROR] API error: Cannot connect to Ganache. Please make sure Ganache is running on port 7545.'',
      not_available_text]"
    by (simp add: ledger_unreachable_answer refused_connection_def initial_def step_def
        sendLog_settle_def send_catch_def Date_now_def Let_def case_prod_beta seconds_clock_def
        ERROR_THROTTLE_MS_def)
  ultimately show ?thesis using ledger_unreachable_answer by simp
qed

subsection \<open>Manual submission\<close>

lemma whitespace_only_trim: "whitespace_only w \<Longrightarrow> trim w = []"
  by (auto simp: trim_def whitespace_only_def list_all_iff dest: set_dropWhileD)

lemma add_log_valid:
  "m \<noteq> [] \<Longrightarrow>
   add_log estimateGas send (Some (JString m)) =
     (case estimateGas m of
        Threw error \<Rightarrow> (add_log_failure error, [EstimateGas m])
      | Returned gasEstimate \<Rightarrow>
          (case send m (max (gasEstimate + 100000) 200000) of
             Threw error \<Rightarrow>
               (add_log_failure error,
                [EstimateGas m, SendTransaction m (max (gasEstimate + 100000) 200000)])
           | Returned receipt \<Rightarrow>
               (Log_added (transactionHash receipt) (toString (blockNumber receipt)),
                [EstimateGas m, SendTransaction m (max (gasEstimate + 100000) 200000)])))"
  by (simp add: add_log_def Let_def max_def split: call_result.split)

lemma add_log_invalid_iff:
  "(add_log estimateGas send body_message = (invalid_request, [])) =
   (body_message = None \<or> body_message = Some (JString []) \<or> (\<forall>m. body_message \<noteq> Some (JString m)))"
proof (cases body_message)
  case None
  then show ?thesis by (simp add: add_log_def)
next
  case (Some v)
  show ?thesis
  proof (cases v)
    case (JString m)
    show ?thesis
    proof (cases "m = []")
      case True
      with Some JString show ?thesis by (simp add: add_log_def)
    next
      case False
      with Some JString show ?thesis
        by (simp add: add_log_valid split: call_result.split)
    qed
  qed (simp_all add: Some add_log_def)
qed

text \<open>
  Claim C10. A manual submission whose message is a non-empty string of white space only
  is not rejected by the validation: the handler calls \<open>estimateGas\<close> with the message as
  it is and, when that returns, \<open>send\<close> with the same message (and the gas limit, at least
  200000). The ingestion service discards such a line: the \<open>'data'\<close> handler does not queue
  it, and \<open>sendLogToBlockchain\<close> sends no request for it. The handler rejects a request
  without touching the ledger client exactly when the message is absent, is the empty
  string, or is not a string.
\<close>

theorem whitespace_submission:
  "whitespace_only w \<Longrightarrow>
   add_log estimateGas send (Some (JString w)) \<noteq> (invalid_request, []) \<and>
   (case estimateGas w of
      Threw error \<Rightarrow>
        add_log estimateGas send (Some (JString w)) = (add_log_failure error, [EstimateGas w])
    | Returned gasEstimate \<Rightarrow>
        snd (add_log estimateGas send (Some (JString w))) =
          [EstimateGas w, SendTransaction w (max (gasEstimate + 100000) 200000)]) \<and>
   queue_lines clock [w] s = ([], s) \<and>
   posts (fst (snd (sendLog_begin clock w s))) = [] \<and>
   ((add_log estimateGas send body_message = (invalid_request, [])) =
      (body_message = None \<or> body_message = Some (JString []) \<or>
       (\<forall>m. body_message \<noteq> Some (JString m))))"
proof -
  assume ws: "whitespace_only w"
  then have ne: "w \<noteq> []" and tr: "trim w = []"
    by (simp_all add: whitespace_only_def whitespace_only_trim)
  have a: "add_log estimateGas send (Some (JString w)) \<noteq> (invalid_request, [])"
    using ne by (simp add: add_log_invalid_iff)
  have b: "(case estimateGas w of
      Threw error \<Rightarrow>
        add_log estimateGas send (Some (JString w)) = (add_log_failure error, [EstimateGas w])
    | Returned gasEstimate \<Rightarrow>
        snd (add_log estimateGas send (Some (JString w))) =
          [EstimateGas w, SendTransaction w (max (gasEstimate + 100000) 200000)])"
    by (simp add: add_log_valid [OF ne] split: call_result.split)
  have c: "queue_lines clock [w] s = ([], s)" using tr by simp
  have d: "posts (fst (snd (sendLog_begin clock w s))) = []"
    using tr by (simp add: sendLog_begin_def Date_now_def Let_def)
  from a b c d add_log_invalid_iff [of estimateGas send body_message] show ?thesis by simp
qed

theorem whitespace_submission_witness:
  "whitespace_only ''   '' \<and>
   snd (add_log sample_estimateGas sample_send (Some (JString ''   ''))) =
     [EstimateGas ''   '', SendTransaction ''   '' 200000] \<and>
   queue_lines millis_clock [''   ''] (initial millis_clock) = ([], initial millis_clock)"
proof -
  have ws: "whitespace_only ''   ''"
    by (simp add: whitespace_only_def js_whitespace_def)
  from whitespace_submission [OF ws, of sample_estimateGas sample_send millis_clock "initial millis_clock"]
  show ?thesis using ws by (simp add: sample_estimateGas_def)
qed

end
